theory Spec2Isabelle
  imports Main "HOL-Library.Word" "HOL-Library.Multiset" "HOL-Library.Sublist"
begin

section \<open>glu: a command-line client for GitLab user administration\<close>

text \<open>
  A shallow embedding of \<^verbatim>\<open>main.go\<close>. Go's \<^verbatim>\<open>int\<close> is taken at 64 bits (a
  \<open>64 word\<close> read through \<open>sint\<close>), strings are byte lists, a panic, a
  \<^verbatim>\<open>log.Fatalf\<close> and an index out of range are values of \<open>error\<close>, and the effects
  (outbound HTTP requests, writes to standard output, reads from standard input) are
  threaded through an explicit \<open>world\<close>.
\<close>

subsection \<open>Data model\<close>

type_synonym gint = "64 word"

text \<open>\<^verbatim>\<open>time.Time\<close>: an instant; the program only stores it.\<close>

datatype Time = UnixNano int

text \<open>One element of \<^verbatim>\<open>GitlabUsers\<close> (main.go, lines 24-38).\<close>

record GitlabUser =
  ID :: gint
  Name :: string
  Username :: string
  State :: string
  CreatedAt :: Time
  PublicEmail :: string
  LastSignInAt :: Time
  ConfirmedAt :: Time
  LastActivityOn :: string
  Email :: string
  CurrentSignInAt :: Time
  External :: bool
  IsAdmin :: bool

type_synonym GitlabUsers = "GitlabUser list"

text \<open>
  How a run can stop early: \<open>Panic\<close> is \<^verbatim>\<open>panic(e)\<close> raised by \<^verbatim>\<open>check\<close> with the
  text of the error, \<open>ErrSyntax\<close> and \<open>ErrRange\<close> are the two errors of
  \<^verbatim>\<open>strconv.Atoi\<close> (also raised through \<^verbatim>\<open>check\<close>), \<open>IndexOutOfRange\<close> is the
  run-time panic of an index expression, and \<open>Fatal\<close> is \<^verbatim>\<open>log.Fatalf\<close> with its
  formatted message.
\<close>

datatype error = Panic string | ErrSyntax string | ErrRange string | IndexOutOfRange | Fatal string

subsection \<open>The sort interface (main.go, lines 46-56)\<close>

definition Len :: "GitlabUsers \<Rightarrow> nat" where
  "Len s = length s"

text \<open>\<^verbatim>\<open>s[i].ID < s[j].ID\<close> on signed integers; an index outside the slice panics.\<close>

definition Less :: "GitlabUsers \<Rightarrow> nat \<Rightarrow> nat \<Rightarrow> error + bool" where
  "Less s i j =
     (if i < length s \<and> j < length s then Inr (ID (s ! i) <s ID (s ! j))
      else Inl IndexOutOfRange)"

text \<open>
  \<^verbatim>\<open>s[i], s[j] = s[j], s[i]\<close>: both right-hand sides are read first, then the two
  elements are assigned in order. The slice is updated in place; the model returns it.
\<close>

definition Swap :: "GitlabUsers \<Rightarrow> nat \<Rightarrow> nat \<Rightarrow> error + GitlabUsers" where
  "Swap s i j =
     (if i < length s \<and> j < length s then Inr (s[i := s ! j, j := s ! i])
      else Inl IndexOutOfRange)"

text \<open>
  \<^verbatim>\<open>sort.Sort\<close> belongs to Go's standard library and reaches the data only through
  \<^verbatim>\<open>Len\<close>, \<^verbatim>\<open>Less\<close> and \<^verbatim>\<open>Swap\<close>. Its insertion sort, which is all that runs on a
  slice of at most 12 elements, is embedded here, driven through the three methods above:
  \<^verbatim>\<open>
  func insertionSort(data Interface, a, b int) {
      for i := a + 1; i < b; i++ {
          for j := i; j > a && data.Less(j, j-1); j-- {
              data.Swap(j, j-1)
          }
      }
  }
  \<close>
\<close>

fun insertionSort_inner :: "GitlabUsers \<Rightarrow> nat \<Rightarrow> nat \<Rightarrow> error + GitlabUsers" where
  "insertionSort_inner s a j =
     (if j > a then
        (case Less s j (j - 1) of
           Inl e \<Rightarrow> Inl e
         | Inr lt \<Rightarrow>
             if lt then
               (case Swap s j (j - 1) of
                  Inl e \<Rightarrow> Inl e
                | Inr s' \<Rightarrow> insertionSort_inner s' a (j - 1))
             else Inr s)
      else Inr s)"

function insertionSort_outer :: "GitlabUsers \<Rightarrow> nat \<Rightarrow> nat \<Rightarrow> nat \<Rightarrow> error + GitlabUsers" where
  "insertionSort_outer s a b i =
     (if i < b then
        (case insertionSort_inner s a i of
           Inl e \<Rightarrow> Inl e
         | Inr s' \<Rightarrow> insertionSort_outer s' a b (i + 1))
      else Inr s)"
  by pat_completeness auto
termination
  by (relation "measure (\<lambda>(s, a, b, i). b - i)") auto

definition insertionSort :: "GitlabUsers \<Rightarrow> nat \<Rightarrow> nat \<Rightarrow> error + GitlabUsers" where
  "insertionSort s a b = insertionSort_outer s a b (a + 1)"

declare insertionSort_inner.simps [simp del]
declare insertionSort_outer.simps [simp del]

subsection \<open>Standard-library functions the program calls\<close>

text \<open>\<^verbatim>\<open>strconv.FormatBool\<close>.\<close>

definition FormatBool :: "bool \<Rightarrow> string" where
  "FormatBool b = (if b then ''true'' else ''false'')"

text \<open>Decimal digits of a natural number, most significant first.\<close>

definition digit_char :: "nat \<Rightarrow> char" where
  "digit_char d = char_of (48 + d)"

function digits :: "nat \<Rightarrow> string" where
  "digits n = (if n < 10 then [digit_char n] else digits (n div 10) @ [digit_char (n mod 10)])"
  by pat_completeness auto
termination
  by (relation "measure id") auto

declare digits.simps [simp del]

definition FormatInt :: "int \<Rightarrow> string" where
  "FormatInt i = (if i < 0 then CHR ''-'' # digits (nat (- i)) else digits (nat i))"

text \<open>\<^verbatim>\<open>strconv.Itoa\<close>, also what \<^verbatim>\<open>%v\<close> prints for an \<^verbatim>\<open>int\<close>.\<close>

definition Itoa :: "gint \<Rightarrow> string" where
  "Itoa i = FormatInt (sint i)"

text \<open>
  \<^verbatim>\<open>strconv.Atoi\<close> in base 10. After an optional sign the bytes are read from the left
  (the loop of \<^verbatim>\<open>ParseUint\<close>): a byte that is not a decimal digit is a syntax error,
  and a digit that takes the value read so far beyond 64 unsigned bits is a range error,
  whichever comes first. A value that was read to the end is a range error when it is
  outside the range of \<^verbatim>\<open>int\<close>. The empty string and a lone sign are syntax errors.
\<close>

definition is_digit :: "char \<Rightarrow> bool" where
  "is_digit c = ((48::nat) \<le> of_char c \<and> (of_char c :: nat) \<le> 57)"

fun ParseUint_loop :: "string \<Rightarrow> int \<Rightarrow> string \<Rightarrow> error + int" where
  "ParseUint_loop s0 n [] = Inr n"
| "ParseUint_loop s0 n (c # cs) =
     (if \<not> is_digit c then Inl (ErrSyntax s0)
      else if 2 ^ 64 - 1 < n * 10 + (of_char c - 48) then Inl (ErrRange s0)
      else ParseUint_loop s0 (n * 10 + (of_char c - 48)) cs)"

definition Atoi :: "string \<Rightarrow> error + gint" where
  "Atoi s0 =
     (if s0 = [] then Inl (ErrSyntax s0)
      else
        let neg = (hd s0 = CHR ''-'');
            s = (if hd s0 = CHR ''+'' \<or> hd s0 = CHR ''-'' then tl s0 else s0)
        in if s = [] then Inl (ErrSyntax s0)
           else
             (case ParseUint_loop s0 0 s of
                Inl err \<Rightarrow> Inl err
              | Inr un \<Rightarrow>
                  if \<not> neg \<and> 2 ^ 63 \<le> un then Inl (ErrRange s0)
                  else if neg \<and> 2 ^ 63 < un then Inl (ErrRange s0)
                  else Inr (if neg then - word_of_int un else word_of_int un)))"

text \<open>\<^verbatim>\<open>strings.Contains(s, substr)\<close>: \<open>substr\<close> occurs in \<open>s\<close> as a run of bytes.\<close>

fun Contains :: "string \<Rightarrow> string \<Rightarrow> bool" where
  "Contains [] substr = (substr = [])"
| "Contains (c # cs) substr = (prefix substr (c # cs) \<or> Contains cs substr)"

text \<open>\<^verbatim>\<open>strings.Replace(s, "\n", "", -1)\<close>: every newline byte is dropped.\<close>

definition Replace_newline :: "string \<Rightarrow> string" where
  "Replace_newline s = filter (\<lambda>c. c \<noteq> CHR 0x0A) s"

subsection \<open>Regular expressions\<close>

text \<open>
  The two patterns of \<^verbatim>\<open>createUser\<close> use character classes, concatenation,
  \<^verbatim>\<open>+\<close>, \<^verbatim>\<open>*\<close>, \<^verbatim>\<open>?\<close> and \<^verbatim>\<open>{0,61}\<close>, between \<^verbatim>\<open>^\<close> and \<^verbatim>\<open>$\<close>. The syntax
  tree follows \<^verbatim>\<open>regexp/syntax\<close>; a class is a list of inclusive byte ranges. Both
  patterns are anchored at both ends and every class is ASCII, so \<^verbatim>\<open>MatchString\<close>
  accepts a string exactly when the whole byte string matches; the matcher takes
  Brzozowski derivatives.
\<close>

datatype regex =
    OpNoMatch
  | OpEmptyMatch
  | OpCharClass "(char \<times> char) list"
  | OpConcat regex regex
  | OpAlternate regex regex
  | OpStar regex

definition OpPlus :: "regex \<Rightarrow> regex" where
  "OpPlus r = OpConcat r (OpStar r)"

definition OpQuest :: "regex \<Rightarrow> regex" where
  "OpQuest r = OpAlternate OpEmptyMatch r"

text \<open>\<^verbatim>\<open>r{0,n}\<close>\<close>

primrec OpRepeat0 :: "nat \<Rightarrow> regex \<Rightarrow> regex" where
  "OpRepeat0 0 r = OpEmptyMatch"
| "OpRepeat0 (Suc n) r = OpQuest (OpConcat r (OpRepeat0 n r))"

definition OpLiteral :: "char \<Rightarrow> regex" where
  "OpLiteral c = OpCharClass [(c, c)]"

definition in_class :: "(char \<times> char) list \<Rightarrow> char \<Rightarrow> bool" where
  "in_class rs c =
     list_ex (\<lambda>(lo, hi). (of_char lo :: nat) \<le> of_char c \<and> (of_char c :: nat) \<le> of_char hi) rs"

fun nullable :: "regex \<Rightarrow> bool" where
  "nullable OpNoMatch = False"
| "nullable OpEmptyMatch = True"
| "nullable (OpCharClass rs) = False"
| "nullable (OpConcat r s) = (nullable r \<and> nullable s)"
| "nullable (OpAlternate r s) = (nullable r \<or> nullable s)"
| "nullable (OpStar r) = True"

fun deriv :: "char \<Rightarrow> regex \<Rightarrow> regex" where
  "deriv c OpNoMatch = OpNoMatch"
| "deriv c OpEmptyMatch = OpNoMatch"
| "deriv c (OpCharClass rs) = (if in_class rs c then OpEmptyMatch else OpNoMatch)"
| "deriv c (OpConcat r s) =
     (if nullable r then OpAlternate (OpConcat (deriv c r) s) (deriv c s)
      else OpConcat (deriv c r) s)"
| "deriv c (OpAlternate r s) = OpAlternate (deriv c r) (deriv c s)"
| "deriv c (OpStar r) = OpConcat (deriv c r) (OpStar r)"

definition MatchString :: "regex \<Rightarrow> string \<Rightarrow> bool" where
  "MatchString r s = nullable (foldl (\<lambda>r c. deriv c r) r s)"

text \<open>\<^verbatim>\<open>^[A-Za-z]+$\<close> (main.go, line 149)\<close>

definition isAlpha :: regex where
  "isAlpha = OpPlus (OpCharClass [(CHR ''A'', CHR ''Z''), (CHR ''a'', CHR ''z'')])"

text \<open>
  The pattern of main.go, line 156, as the \<^verbatim>\<open>regexp\<close> package receives it (the Go
  string literal writes each backslash twice):
  \<^verbatim>\<open>^[a-zA-Z0-9.!#$%&'*+\/=?^_`{|}~-]+@[a-zA-Z0-9](?:[a-zA-Z0-9-]{0,61}[a-zA-Z0-9])?\<close>
  \<^verbatim>\<open>(?:\.[a-zA-Z0-9](?:[a-zA-Z0-9-]{0,61}[a-zA-Z0-9])?)*$\<close>
  The quote is byte 0x27 and the backquote byte 0x60.
\<close>

definition alnum :: "(char \<times> char) list" where
  "alnum = [(CHR ''a'', CHR ''z''), (CHR ''A'', CHR ''Z''), (CHR ''0'', CHR ''9'')]"

definition rxLocalClass :: "(char \<times> char) list" where
  "rxLocalClass =
     alnum @ map (\<lambda>c. (c, c)) (''.!#$%&'' @ [CHR 0x27] @ ''*+/=?^_'' @ [CHR 0x60] @ ''{|}~-'')"

definition rxLabel :: regex where
  "rxLabel =
     OpConcat (OpCharClass alnum)
       (OpQuest (OpConcat (OpRepeat0 61 (OpCharClass (alnum @ [(CHR ''-'', CHR ''-'')])))
                          (OpCharClass alnum)))"

definition rxEmail :: regex where
  "rxEmail =
     OpConcat (OpPlus (OpCharClass rxLocalClass))
    (OpConcat (OpLiteral CHR ''@'')
    (OpConcat rxLabel (OpStar (OpConcat (OpLiteral CHR ''.'') rxLabel))))"

subsection \<open>The world: network, standard output, standard input\<close>

text \<open>
  \<^verbatim>\<open>http.Response\<close>, as far as the program reads it: the status line, the headers (a
  Go map from a name to its values: an absent name gives the empty slice) and what
  \<^verbatim>\<open>ioutil.ReadAll\<close> makes of the body (its bytes, or a read error).
\<close>

record response =
  Status :: string
  Header :: "string \<Rightarrow> string list"
  Body :: "error + string"

datatype request =
    GET string
  | POST string string string

text \<open>
  \<open>requests\<close> is the log of the requests sent so far, in order; \<open>stdout\<close> holds one
  entry for each call of a print function, in order; \<open>stdin\<close> is the console input
  not yet read.
\<close>

record world =
  requests :: "request list"
  stdout :: "string list"
  stdin :: string

text \<open>
  What lies outside the program: the server (its answer may depend on the requests
  already received), the JSON codec of \<^verbatim>\<open>encoding/json\<close>, applied to a
  \<^verbatim>\<open>GitlabUsers\<close> destination and to the payload map of \<^verbatim>\<open>createUser\<close>, and the part
  of the library's sort that runs on a range of more than 12 elements (\<open>pdqsort_long\<close>:
  given the slice and the bounds of the range, the slice it leaves, or the panic it ends
  in).
\<close>

record env =
  httpGet :: "request list \<Rightarrow> string \<Rightarrow> error + response"
  httpPost :: "request list \<Rightarrow> string \<Rightarrow> string \<Rightarrow> string \<Rightarrow> error + response"
  jsonUnmarshal :: "string \<Rightarrow> error + GitlabUsers"
  jsonMarshal :: "(string \<rightharpoonup> string) \<Rightarrow> error + string"
  pdqsort_long :: "GitlabUsers \<Rightarrow> nat \<Rightarrow> nat \<Rightarrow> error + GitlabUsers"

subsection \<open>sort.Sort\<close>

text \<open>
  The entry of the library's sort (Go 1.19 and later):
  \<^verbatim>\<open>
  func Sort(data Interface) {
      n := data.Len()
      if n <= 1 { return }
      limit := bits.Len(uint(n))
      pdqsort(data, 0, n, limit)
  }
  func pdqsort(data Interface, a, b, limit int) {
      const maxInsertion = 12
      ...
      for {
          length := b - a
          if length <= maxInsertion {
              insertionSort(data, a, b)
              return
          }
          ...
      }
  }
  \<close>
  On a range of at most 12 elements \<^verbatim>\<open>pdqsort\<close> is the insertion sort above. What it
  does on a longer range (a pattern-defeating quicksort with a heap sort in reserve) is
  not embedded: it is the parameter \<open>pdqsort_long\<close> of the environment, and \<open>limit\<close>,
  a function of the length, is part of it.
\<close>

definition maxInsertion :: nat where
  "maxInsertion = 12"

definition pdqsort :: "env \<Rightarrow> GitlabUsers \<Rightarrow> nat \<Rightarrow> nat \<Rightarrow> error + GitlabUsers" where
  "pdqsort E s a b =
     (if b - a \<le> maxInsertion then insertionSort s a b else pdqsort_long E s a b)"

definition Sort :: "env \<Rightarrow> GitlabUsers \<Rightarrow> error + GitlabUsers" where
  "Sort E s = (let n = Len s in if n \<le> 1 then Inr s else pdqsort E s 0 n)"

definition http_Get :: "env \<Rightarrow> string \<Rightarrow> world \<Rightarrow> (error + response) \<times> world" where
  "http_Get E url w = (httpGet E (requests w) url, w\<lparr>requests := requests w @ [GET url]\<rparr>)"

definition http_Post ::
    "env \<Rightarrow> string \<Rightarrow> string \<Rightarrow> string \<Rightarrow> world \<Rightarrow> (error + response) \<times> world" where
  "http_Post E url contentType body w =
     (httpPost E (requests w) url contentType body,
      w\<lparr>requests := requests w @ [POST url contentType body]\<rparr>)"

text \<open>\<^verbatim>\<open>fmt.Print\<close> and \<^verbatim>\<open>fmt.Printf\<close> write the formatted text; \<^verbatim>\<open>fmt.Println\<close> adds a newline.\<close>

definition Print :: "string \<Rightarrow> world \<Rightarrow> world" where
  "Print text w = w\<lparr>stdout := stdout w @ [text]\<rparr>"

definition Println :: "string \<Rightarrow> world \<Rightarrow> world" where
  "Println text w = w\<lparr>stdout := stdout w @ [text @ [CHR 0x0A]]\<rparr>"

text \<open>
  \<^verbatim>\<open>reader.ReadString('\n')\<close>: the input up to and including the first newline, or
  all that is left when there is none (the error is discarded by the caller).
\<close>

definition ReadString :: "world \<Rightarrow> string \<times> world" where
  "ReadString w =
     (let line = takeWhile (\<lambda>c. c \<noteq> CHR 0x0A) (stdin w);
          rest = dropWhile (\<lambda>c. c \<noteq> CHR 0x0A) (stdin w)
      in case rest of
           [] \<Rightarrow> (line, w\<lparr>stdin := []\<rparr>)
         | nl # rest' \<Rightarrow> (line @ [nl], w\<lparr>stdin := rest'\<rparr>))"

subsection \<open>getUsers (main.go, lines 60-88)\<close>

definition GitlabURL :: string where
  "GitlabURL = ''https://git.domain.com/api/v4/''"

text \<open>The listing URL; the first request has the literal \<^verbatim>\<open>page=1\<close>.\<close>

definition users_url :: "string \<Rightarrow> string \<Rightarrow> string \<Rightarrow> string" where
  "users_url a_str page t =
     GitlabURL @ ''users?active='' @ a_str @ ''&external=false&order_by=id&page='' @ page
       @ ''&per_page=100&skip_ldap=false&sort=desc&with_custom_attributes=false&private_token='' @ t"

text \<open>
  The loop of lines 75-86. \<^verbatim>\<open>currentPage\<close> and \<^verbatim>\<open>totalPages\<close> are machine integers
  compared as signed values; every \<^verbatim>\<open>check\<close> that fails ends the run.
\<close>

function getUsers_loop ::
    "env \<Rightarrow> string \<Rightarrow> string \<Rightarrow> gint \<Rightarrow> gint \<Rightarrow> GitlabUsers \<Rightarrow> world
      \<Rightarrow> (error + GitlabUsers) \<times> world" where
  "getUsers_loop E a_str t currentPage totalPages jsonResponse w =
     (if currentPage <s totalPages then
        (let nextPage = Itoa (currentPage + 1) in
         case http_Get E (users_url a_str nextPage t) w of
           (Inl httpErr, w') \<Rightarrow> (Inl httpErr, w')
         | (Inr response, w') \<Rightarrow>
             (case Body response of
                Inl responseErr \<Rightarrow> (Inl responseErr, w')
              | Inr data \<Rightarrow>
                  (case jsonUnmarshal E data of
                     Inl jsonErr \<Rightarrow> (Inl jsonErr, w')
                   | Inr tmpJsonResponse \<Rightarrow>
                       getUsers_loop E a_str t (currentPage + 1) totalPages
                         (jsonResponse @ tmpJsonResponse) w')))
      else (Inr jsonResponse, w))"
  by pat_completeness auto
termination
proof (relation "measure (\<lambda>(E, a_str, t, currentPage, totalPages, jsonResponse, w).
                    nat (sint totalPages - sint currentPage))")
  show "wf (measure (\<lambda>(E :: env, a_str :: string, t :: string, currentPage :: gint,
                       totalPages :: gint, jsonResponse :: GitlabUsers, w :: world).
                    nat (sint totalPages - sint currentPage)))"
    by simp
next
  fix E :: env and a_str t :: string and currentPage totalPages :: gint
    and jsonResponse :: GitlabUsers and w :: world
    and nextPage x1 w' response data tmpJsonResponse
  assume lt: "currentPage <s totalPages"
  have "sint currentPage < sint totalPages"
    using lt by (simp add: word_sless_alt)
  moreover have "sint totalPages \<le> 2 ^ 63 - 1"
    using sint_lt [of totalPages] by simp
  moreover have "- (2 ^ 63) \<le> sint currentPage"
    using sint_ge [of currentPage] by simp
  ultimately have "signed_take_bit 63 (sint currentPage + 1) = sint currentPage + 1"
    by (intro signed_take_bit_int_eq_self) simp_all
  then have "sint (currentPage + 1) = sint currentPage + 1"
    by (simp add: sint_word_ariths)
  then show "((E, a_str, t, currentPage + 1, totalPages, jsonResponse @ tmpJsonResponse, w'),
              (E, a_str, t, currentPage, totalPages, jsonResponse, w))
             \<in> measure (\<lambda>(E, a_str, t, currentPage, totalPages, jsonResponse, w).
                  nat (sint totalPages - sint currentPage))"
    using \<open>sint currentPage < sint totalPages\<close> by simp
qed

declare getUsers_loop.simps [simp del]

definition getUsers :: "env \<Rightarrow> string \<Rightarrow> bool \<Rightarrow> world \<Rightarrow> (error + GitlabUsers) \<times> world" where
  "getUsers E t a w =
     (let a_str = FormatBool a in
      case http_Get E (users_url a_str ''1'' t) w of
        (Inl httpErr, w') \<Rightarrow> (Inl httpErr, w')
      | (Inr response, w') \<Rightarrow>
          (case Body response of
             Inl responseErr \<Rightarrow> (Inl responseErr, w')
           | Inr data \<Rightarrow>
               (case jsonUnmarshal E data of
                  Inl jsonErr \<Rightarrow> (Inl jsonErr, w')
                | Inr jsonResponse \<Rightarrow>
                    (case Header response ''X-Page'' of
                       [] \<Rightarrow> (Inl IndexOutOfRange, w')
                     | xPage # _ \<Rightarrow>
                         (case Atoi xPage of
                            Inl err \<Rightarrow> (Inl err, w')
                          | Inr currentPage \<Rightarrow>
                              (case Header response ''X-Total-Pages'' of
                                 [] \<Rightarrow> (Inl IndexOutOfRange, w')
                               | xTotalPages # _ \<Rightarrow>
                                   (case Atoi xTotalPages of
                                      Inl err \<Rightarrow> (Inl err, w')
                                    | Inr totalPages \<Rightarrow>
                                        getUsers_loop E a_str t currentPage totalPages
                                          jsonResponse w')))))))"

subsection \<open>displayAllUsers (main.go, lines 91-97)\<close>

text \<open>\<^verbatim>\<open>Println\<close> puts a space between its operands.\<close>

fun displayAllUsers :: "GitlabUsers \<Rightarrow> world \<Rightarrow> world" where
  "displayAllUsers [] w = w"
| "displayAllUsers (v # u) w =
     displayAllUsers u
       (Println (''Name : '' @ Name v)
         (Println (''ID : '' @ Itoa (ID v))
           (Println ''-----------------------'' w)))"

subsection \<open>searchUsers (main.go, lines 101-128)\<close>

record foundUser =
  fName :: string
  fID :: gint
  fUsername :: string
  fEmail :: string

text \<open>The first loop (lines 109-118): the users that match are appended in turn.\<close>

fun searchUsers_collect :: "string \<Rightarrow> GitlabUsers \<Rightarrow> foundUser list \<Rightarrow> foundUser list" where
  "searchUsers_collect s [] foundUsers = foundUsers"
| "searchUsers_collect s (v # u) foundUsers =
     (if Contains (Name v) s \<or> Contains (Username v) s \<or> Contains (Email v) s then
        searchUsers_collect s u
          (foundUsers @ [\<lparr>fName = Name v, fID = ID v, fUsername = Username v, fEmail = Email v\<rparr>])
      else searchUsers_collect s u foundUsers)"

text \<open>One call of \<^verbatim>\<open>Printf("%v \t%v \t%v \t%v\n", ...)\<close>; the tab is byte 0x09.\<close>

definition found_row :: "foundUser \<Rightarrow> string" where
  "found_row f =
     Itoa (fID f) @ [CHR '' '', CHR 0x09] @ fName f @ [CHR '' '', CHR 0x09] @ fUsername f
       @ [CHR '' '', CHR 0x09] @ fEmail f @ [CHR 0x0A]"

fun searchUsers_print :: "foundUser list \<Rightarrow> world \<Rightarrow> world" where
  "searchUsers_print [] w = w"
| "searchUsers_print (f # foundUsers) w = searchUsers_print foundUsers (Print (found_row f) w)"

definition searchUsers :: "string \<Rightarrow> GitlabUsers \<Rightarrow> world \<Rightarrow> world" where
  "searchUsers s u w =
     (let foundUsers = searchUsers_collect s u [] in
      if length foundUsers > 0 then searchUsers_print foundUsers w
      else Println ''No users found'' w)"

subsection \<open>createUser (main.go, lines 132-175)\<close>

definition create_url :: "string \<Rightarrow> string" where
  "create_url t = GitlabURL @ ''users?private_token='' @ t"

definition createUser :: "env \<Rightarrow> string \<Rightarrow> world \<Rightarrow> (error + unit) \<times> world" where
  "createUser E t w0 =
     (let w1 = Print ''Name: '' w0;
          (lineName, w2) = ReadString w1;
          inputName = Replace_newline lineName;
          w3 = Print ''Email: '' w2;
          (lineEmail, w4) = ReadString w3;
          inputEmail = Replace_newline lineEmail;
          w5 = Print ''Username: '' w4;
          (lineUserName, w6) = ReadString w5;
          inputUserName = Replace_newline lineUserName
      in if \<not> MatchString isAlpha inputUserName then
           (Inl (Fatal (''error: '' @ inputUserName @ '' is not a valid username'')), w6)
         else if length inputEmail > 254 \<or> \<not> MatchString rxEmail inputEmail then
           (Inl (Fatal (''error: '' @ inputEmail @ '' is not a valid email address'')), w6)
         else
           (let payload = [''email'' \<mapsto> inputEmail, ''name'' \<mapsto> inputName,
                           ''username'' \<mapsto> inputUserName, ''reset_password'' \<mapsto> ''true'']
            in case jsonMarshal E payload of
                 Inl err \<Rightarrow> (Inl err, w6)
               | Inr bytesRepresentation \<Rightarrow>
                   (case http_Post E (create_url t) ''application/json'' bytesRepresentation w6 of
                      (Inl postErr, w7) \<Rightarrow> (Inl postErr, w7)
                    | (Inr resp, w7) \<Rightarrow> (Inr (), Println (Status resp) w7))))"

subsection \<open>blockUser (main.go, lines 178-197)\<close>

definition block_url :: "string \<Rightarrow> string \<Rightarrow> string" where
  "block_url t u = GitlabURL @ ''users/'' @ u @ ''/block?private_token='' @ t"

definition blockUser :: "env \<Rightarrow> string \<Rightarrow> string \<Rightarrow> world \<Rightarrow> (error + unit) \<times> world" where
  "blockUser E t u w =
     (case http_Post E (block_url t u) ''application/x-www-form-urlencoded'' [] w of
        (Inl postErr, w') \<Rightarrow> (Inl postErr, w')
      | (Inr resp, w') \<Rightarrow>
          (if Status resp = ''201 Created'' then
             (Inr (), Println (Status resp)
                        (Print (''UserID '' @ u @ '' has been blocked'' @ [CHR 0x0A]) w'))
           else if Status resp = ''404 Not Found'' then
             (Inr (), Println (Status resp)
                        (Print (''ERROR: Unable to find UserID '' @ u @ [CHR 0x0A]) w'))
           else if Status resp = ''403 Forbidden'' then
             (Inr (), Println (Status resp)
                        (Print (''ERROR: UserID '' @ u @ '' is already blocked'' @ [CHR 0x0A]) w'))
           else
             (Inr (), Println (Status resp)
                        (Print (''Error: something went wrong while trying to block UserID ''
                                  @ u @ [CHR 0x0A]) w'))))"

subsection \<open>main (main.go, lines 199-225)\<close>

text \<open>The five variables that \<^verbatim>\<open>flag.Parse\<close> has filled in.\<close>

record flags =
  active :: bool
  searchText :: string
  token :: string
  create :: bool
  bu :: string

definition main :: "env \<Rightarrow> flags \<Rightarrow> world \<Rightarrow> (error + unit) \<times> world" where
  "main E f w =
     (if searchText f \<noteq> [] then
        (case getUsers E (token f) (active f) w of
           (Inl e, w') \<Rightarrow> (Inl e, w')
         | (Inr users, w') \<Rightarrow>
             (case Sort E users of
                Inl e \<Rightarrow> (Inl e, w')
              | Inr users' \<Rightarrow> (Inr (), searchUsers (searchText f) users' w')))
      else if bu f \<noteq> [] then blockUser E (token f) (bu f) w
      else if create f then createUser E (token f) w
      else
        (case getUsers E (token f) (active f) w of
           (Inl e, w') \<Rightarrow> (Inl e, w')
         | (Inr users, w') \<Rightarrow>
             (case Sort E users of
                Inl e \<Rightarrow> (Inl e, w')
              | Inr users' \<Rightarrow> (Inr (), displayAllUsers users' w'))))"

subsection \<open>Notions used to state the properties\<close>


text \<open>What can be reached from a slice by calls of \<open>Swap\<close> alone.\<close>

inductive swaps :: "GitlabUsers \<Rightarrow> GitlabUsers \<Rightarrow> bool" where
  swaps_none: "swaps s s"
| swaps_then: "swaps s s' \<Longrightarrow> Swap s' i j = Inr s'' \<Longrightarrow> swaps s s''"

text \<open>The projection of a user that \<open>searchUsers\<close> keeps for a match.\<close>

definition found_of :: "GitlabUser \<Rightarrow> foundUser" where
  "found_of v = \<lparr>fName = Name v, fID = ID v, fUsername = Username v, fEmail = Email v\<rparr>"

text \<open>
  The strings a regular expression denotes: \<open>star A\<close> is any number of strings of \<open>A\<close>
  in a row.
\<close>

inductive_set star :: "string set \<Rightarrow> string set" for A :: "string set" where
  star_empty: "[] \<in> star A"
| star_more: "u \<in> A \<Longrightarrow> v \<in> star A \<Longrightarrow> u @ v \<in> star A"

primrec lang :: "regex \<Rightarrow> string set" where
  "lang OpNoMatch = {}"
| "lang OpEmptyMatch = {[]}"
| "lang (OpCharClass rs) = {[c] | c. in_class rs c}"
| "lang (OpConcat r s) = {u @ v | u v. u \<in> lang r \<and> v \<in> lang s}"
| "lang (OpAlternate r s) = lang r \<union> lang s"
| "lang (OpStar r) = star (lang r)"

text \<open>The bytes \<^verbatim>\<open>A\<close> to \<^verbatim>\<open>Z\<close> and \<^verbatim>\<open>a\<close> to \<^verbatim>\<open>z\<close>.\<close>

definition is_letter :: "char \<Rightarrow> bool" where
  "is_letter c = ((65 \<le> (of_char c :: nat) \<and> (of_char c :: nat) \<le> 90)
                 \<or> (97 \<le> (of_char c :: nat) \<and> (of_char c :: nat) \<le> 122))"

text \<open>The first two steps of the search and of the default action: fetch, then sort.\<close>

definition fetch_and_sort :: "env \<Rightarrow> flags \<Rightarrow> world \<Rightarrow> (error + GitlabUsers) \<times> world" where
  "fetch_and_sort E f w =
     (case getUsers E (token f) (active f) w of
        (Inl e, w') \<Rightarrow> (Inl e, w')
      | (Inr users, w') \<Rightarrow> (Sort E users, w'))"

subsection \<open>Example data\<close>

text \<open>Three users and the values the examples below are evaluated on.\<close>

definition example_user :: "gint \<Rightarrow> string \<Rightarrow> string \<Rightarrow> string \<Rightarrow> GitlabUser" where
  "example_user i n u e =
     \<lparr>ID = i, Name = n, Username = u, State = ''active'', CreatedAt = UnixNano 0,
      PublicEmail = [], LastSignInAt = UnixNano 0, ConfirmedAt = UnixNano 0,
      LastActivityOn = [], Email = e, CurrentSignInAt = UnixNano 0, External = False,
      IsAdmin = False\<rparr>"

definition jane :: GitlabUser where
  "jane = example_user 2 ''Jane Roe'' ''jroe'' ''jane.smith@x.com''"

definition bob :: GitlabUser where
  "bob = example_user 1 ''Bob Stone'' ''bob'' ''bob@x.com''"

definition eve :: GitlabUser where
  "eve = example_user (- 3) ''Eve'' ''eve'' ''eve@y.org''"

text \<open>Thirteen users with the identifiers 13 down to 1, and the same users in ascending order.\<close>

definition numbered :: "nat \<Rightarrow> GitlabUser" where
  "numbered i = example_user (word_of_nat i) ''User'' ''user'' ''user@x.com''"

definition thirteen :: GitlabUsers where
  "thirteen = map numbered (rev [1..<14])"

definition thirteen_sorted :: GitlabUsers where
  "thirteen_sorted = map numbered [1..<14]"

text \<open>A world with nothing sent or printed yet and the given console input.\<close>

definition console :: "string \<Rightarrow> world" where
  "console input = \<lparr>requests = [], stdout = [], stdin = input\<rparr>"

text \<open>
  A server that answers every POST with the given status line and refuses every GET. In
  this environment and the next, long ranges are sorted by insertion as well.
\<close>

definition answering :: "string \<Rightarrow> env" where
  "answering status =
     \<lparr>httpGet = (\<lambda>h url. Inl (Panic ''connection refused'')),
      httpPost = (\<lambda>h url contentType body. Inr \<lparr>Status = status, Header = (\<lambda>n. []), Body = Inr []\<rparr>),
      jsonUnmarshal = (\<lambda>data. Inl (Panic ''unexpected end of JSON input'')),
      jsonMarshal = (\<lambda>payload. Inr ''{}''),
      pdqsort_long = insertionSort\<rparr>"

text \<open>
  A listing endpoint of two pages for the token \<^verbatim>\<open>tok\<close> and active users: page 1 holds
  two users, page 2 one, and both answers carry the page headers.
\<close>

definition two_pages :: env where
  "two_pages =
     \<lparr>httpGet = (\<lambda>h url.
        if url = users_url ''true'' ''1'' ''tok'' then
          Inr \<lparr>Status = ''200 OK'',
               Header = (\<lambda>n. if n = ''X-Page'' then [''1'']
                             else if n = ''X-Total-Pages'' then [''2''] else []),
               Body = Inr ''page one''\<rparr>
        else if url = users_url ''true'' ''2'' ''tok'' then
          Inr \<lparr>Status = ''200 OK'',
               Header = (\<lambda>n. if n = ''X-Page'' then [''2'']
                             else if n = ''X-Total-Pages'' then [''2''] else []),
               Body = Inr ''page two''\<rparr>
        else Inl (Panic ''no such host'')),
      httpPost = (\<lambda>h url contentType body. Inl (Panic ''no such host'')),
      jsonUnmarshal = (\<lambda>data.
        if data = ''page one'' then Inr [jane, bob]
        else if data = ''page two'' then Inr [eve]
        else Inl (Panic ''invalid character'')),
      jsonMarshal = (\<lambda>payload. Inr ''{}''),
      pdqsort_long = insertionSort\<rparr>"

text \<open>
  A world with the given entries already printed and the given lines waiting on the
  console, and the flags of an invocation with the token \<^verbatim>\<open>tok\<close>.
\<close>

definition terminal :: "string list \<Rightarrow> string list \<Rightarrow> world" where
  "terminal printed lines =
     \<lparr>requests = [], stdout = printed, stdin = concat (map (\<lambda>l. l @ [CHR 0x0A]) lines)\<rparr>"

definition cli :: "string \<Rightarrow> string \<Rightarrow> bool \<Rightarrow> flags" where
  "cli s b c = \<lparr>active = True, searchText = s, token = ''tok'', create = c, bu = b\<rparr>"

section \<open>Properties\<close>

subsection \<open>Sorting\<close>

text \<open>
  Within the slice, \<open>Less\<close> compares the identifiers as signed integers and \<open>Swap\<close>
  exchanges two neighbours.
\<close>

lemma Less_in_range:
  "i < length s \<Longrightarrow> j < length s \<Longrightarrow> Less s i j = Inr (sint (ID (s ! i)) < sint (ID (s ! j)))"
  by (simp add: Less_def word_sless_alt)

lemma Swap_adjacent:
  "Swap (xs @ y # x # rest) (Suc (length xs)) (length xs) = Inr (xs @ x # y # rest)"
  by (simp add: Swap_def nth_append list_update_append)

text \<open>Whatever the indices, a call of \<open>Swap\<close> that returns keeps the users and their number.\<close>

lemma Swap_mset: "Swap s i j = Inr s' \<Longrightarrow> mset s' = mset s \<and> length s' = length s"
  by (auto simp: Swap_def mset_swap split: if_splits)

text \<open>
  One pass of the inner loop: with \<open>x\<close> at index \<open>length xs\<close>, the elements around it
  in order and \<open>x\<close> below those that follow it, the loop moves \<open>x\<close> to its place.
\<close>

lemma inner_inserts:
  assumes "sorted (map (\<lambda>u. sint (ID u)) (xs @ ys))" and "\<forall>y\<in>set ys. sint (ID x) \<le> sint (ID y)"
  shows "\<exists>s'. insertionSort_inner (xs @ x # ys @ zs) 0 (length xs) = Inr (s' @ zs)
           \<and> sorted (map (\<lambda>u. sint (ID u)) s') \<and> mset s' = mset (xs @ x # ys)"
  using assms
proof (induction xs arbitrary: ys rule: rev_induct)
  case Nil
  then show ?case by (intro exI [of _ "x # ys"]) (simp add: insertionSort_inner.simps)
next
  case (snoc y xs)
  let ?s = "(xs @ [y]) @ x # ys @ zs"
  have lt: "Less ?s (Suc (length xs)) (length xs) = Inr (sint (ID x) < sint (ID y))"
    by (simp add: Less_in_range nth_append)
  show ?case
  proof (cases "sint (ID x) < sint (ID y)")
    case True
    have sw: "Swap ?s (Suc (length xs)) (length xs) = Inr (xs @ x # (y # ys) @ zs)"
      using Swap_adjacent [of xs y x "ys @ zs"] by simp
    have "sorted (map (\<lambda>u. sint (ID u)) (xs @ y # ys))"
      using snoc.prems(1) by simp
    moreover have "\<forall>y'\<in>set (y # ys). sint (ID x) \<le> sint (ID y')"
      using True snoc.prems(2) by simp
    ultimately obtain s' where
      "insertionSort_inner (xs @ x # (y # ys) @ zs) 0 (length xs) = Inr (s' @ zs)"
      "sorted (map (\<lambda>u. sint (ID u)) s')" "mset s' = mset (xs @ x # y # ys)"
      using snoc.IH [of "y # ys"] by auto
    then show ?thesis
      using True lt sw
      by (intro exI [of _ s']) (subst insertionSort_inner.simps, simp)
  next
    case False
    have "sorted (map (\<lambda>u. sint (ID u)) ((xs @ [y]) @ x # ys))"
      using False snoc.prems by (auto simp: sorted_append)
    then show ?thesis
      using False lt
      by (intro exI [of _ "(xs @ [y]) @ x # ys"]) (subst insertionSort_inner.simps, simp)
  qed
qed

text \<open>The outer loop, started at \<open>i\<close> with the first \<open>i\<close> elements in order.\<close>

lemma outer_sorts:
  assumes "i \<le> length s" and "sorted (map (\<lambda>u. sint (ID u)) (take i s))"
  shows "\<exists>s'. insertionSort_outer s 0 (length s) i = Inr s'
           \<and> sorted (map (\<lambda>u. sint (ID u)) s') \<and> mset s' = mset s"
  using assms
proof (induction "length s - i" arbitrary: s i)
  case 0
  then show ?case by (simp add: insertionSort_outer.simps)
next
  case (Suc d)
  then have i: "i < length s" by simp
  have eq: "take i s @ s ! i # [] @ drop (Suc i) s = s"
    using i by (simp add: id_take_nth_drop [symmetric])
  have li: "length (take i s) = i"
    using i by simp
  have "\<exists>s'. insertionSort_inner (take i s @ s ! i # [] @ drop (Suc i) s) 0 (length (take i s))
            = Inr (s' @ drop (Suc i) s)
          \<and> sorted (map (\<lambda>u. sint (ID u)) s') \<and> mset s' = mset (take i s @ s ! i # [])"
    by (rule inner_inserts) (use Suc.prems(2) in simp_all)
  then obtain s' where inner: "insertionSort_inner s 0 i = Inr (s' @ drop (Suc i) s)"
    and sorted': "sorted (map (\<lambda>u. sint (ID u)) s')"
    and mset': "mset s' = mset (take i s @ s ! i # [])"
    unfolding eq li by blast
  let ?t = "s' @ drop (Suc i) s"
  have "length s' = length (take i s @ s ! i # [])"
    using mset' by (rule mset_eq_length)
  then have len': "length s' = Suc i"
    using li by simp
  have len: "length ?t = length s"
    using len' i by simp
  have mset_t: "mset ?t = mset s"
    using arg_cong [OF eq, of mset] mset' by simp
  have take_t: "take (Suc i) ?t = s'"
    using len' by simp
  have "\<exists>r. insertionSort_outer ?t 0 (length ?t) (Suc i) = Inr r
          \<and> sorted (map (\<lambda>u. sint (ID u)) r) \<and> mset r = mset ?t"
  proof (rule Suc.hyps(1))
    show "d = length ?t - Suc i" using Suc.hyps(2) len by simp
    show "Suc i \<le> length ?t" using len i by simp
    show "sorted (map (\<lambda>u. sint (ID u)) (take (Suc i) ?t))"
      using take_t sorted' by simp
  qed
  then obtain r where
    "insertionSort_outer ?t 0 (length s) (Suc i) = Inr r"
    "sorted (map (\<lambda>u. sint (ID u)) r)" "mset r = mset s"
    unfolding len mset_t by blast
  then show ?case
    using i inner by (intro exI [of _ r]) (simp add: insertionSort_outer.simps [of s])
qed


text \<open>
  The insertion sort on a whole slice returns (no index leaves the slice), and what it
  returns is ordered by identifier and is a rearrangement of its input.
\<close>

lemma insertionSort_sorts:
  "\<exists>s'. insertionSort s 0 (length s) = Inr s'
     \<and> sorted (map (\<lambda>u. sint (ID u)) s') \<and> mset s' = mset s"
proof (cases s)
  case Nil
  then show ?thesis
    by (simp add: insertionSort_def insertionSort_outer.simps)
next
  case (Cons x xs)
  have "sorted (map (\<lambda>u. sint (ID u)) (take 1 s))"
    using Cons by simp
  then have "\<exists>s'. insertionSort_outer s 0 (length s) 1 = Inr s'
           \<and> sorted (map (\<lambda>u. sint (ID u)) s') \<and> mset s' = mset s"
    using Cons by (intro outer_sorts) simp_all
  then show ?thesis
    by (simp add: insertionSort_def)
qed




text \<open>
  \<open>Less\<close> is what the library asks of it, a transitive ordering: if \<open>Less i j\<close> and
  \<open>Less j k\<close> hold, so does \<open>Less i k\<close>, and if both fail, so does \<open>Less i k\<close>.
\<close>

lemma Less_transitive_ordering:
  "(Less s i j = Inr True \<and> Less s j k = Inr True \<longrightarrow> Less s i k = Inr True)
   \<and> (Less s i j = Inr False \<and> Less s j k = Inr False \<longrightarrow> Less s i k = Inr False)"
  by (auto simp: Less_def word_sless_alt split: if_splits)



text \<open>
  A sort reaches the data through \<open>Swap\<close> only, and no sequence of swaps adds, drops
  or changes a user, whatever the algorithm that chooses the swaps; the insertion sort is
  such a sequence.
\<close>

lemma swaps_mset: "swaps s s' \<Longrightarrow> mset s' = mset s \<and> length s' = length s"
  by (induction rule: swaps.induct) (auto dest: Swap_mset)

lemma swaps_trans: "swaps s' s'' \<Longrightarrow> swaps s s' \<Longrightarrow> swaps s s''"
  by (induction rule: swaps.induct) (auto intro: swaps_then)

lemma insertionSort_inner_swaps: "insertionSort_inner s a j = Inr s' \<Longrightarrow> swaps s s'"
proof (induction s a j arbitrary: s' rule: insertionSort_inner.induct)
  case (1 s a j)
  show ?case
  proof (cases "a < j \<and> Less s j (j - 1) = Inr True")
    case False
    then have "s' = s"
      using "1.prems" by (subst (asm) insertionSort_inner.simps) (auto split: sum.splits if_splits)
    then show ?thesis
      by (simp add: swaps_none)
  next
    case True
    then obtain t where t: "Swap s j (j - 1) = Inr t" and rest: "insertionSort_inner t a (j - 1) = Inr s'"
      using "1.prems" by (subst (asm) insertionSort_inner.simps) (auto split: sum.splits)
    have "swaps s t"
      using swaps_then [OF swaps_none t] .
    moreover have "swaps t s'"
      using True t rest by (intro "1.IH") simp_all
    ultimately show ?thesis
      by (rule swaps_trans [rotated])
  qed
qed

lemma insertionSort_outer_swaps: "insertionSort_outer s a b i = Inr s' \<Longrightarrow> swaps s s'"
proof (induction s a b i arbitrary: s' rule: insertionSort_outer.induct)
  case (1 s a b i)
  show ?case
  proof (cases "i < b")
    case False
    then have "s' = s"
      using "1.prems" by (subst (asm) insertionSort_outer.simps) simp
    then show ?thesis
      by (simp add: swaps_none)
  next
    case True
    then obtain t where t: "insertionSort_inner s a i = Inr t"
      and rest: "insertionSort_outer t a b (i + 1) = Inr s'"
      using "1.prems" by (subst (asm) insertionSort_outer.simps) (auto split: sum.splits)
    have "swaps s t"
      using t by (rule insertionSort_inner_swaps)
    moreover have "swaps t s'"
      using True t rest by (intro "1.IH") simp_all
    ultimately show ?thesis
      by (rule swaps_trans [rotated])
  qed
qed

lemma insertionSort_swaps: "insertionSort s a b = Inr s' \<Longrightarrow> swaps s s'"
  by (simp add: insertionSort_def insertionSort_outer_swaps)

text \<open>
  C8. Sorting is a permutation. No slice reached from the input by calls of \<open>Swap\<close>
  adds, drops or changes a user, and the sort has no other way to the data. On at most
  12 users the library's insertion sort is followed step by step: it returns a slice
  reached by swaps. On more than 12 users the theorem takes from the library's quicksort
  that it returns and has done nothing but swap. In both cases the result holds exactly
  the users of the input, with the same multiplicities.
\<close>

theorem Sort_permutation:
  assumes "12 < length s \<Longrightarrow> \<exists>s'. pdqsort_long E s 0 (Len s) = Inr s' \<and> swaps s s'"
  shows "(\<forall>t. swaps s t \<longrightarrow> mset t = mset s \<and> length t = length s)
    \<and> (\<exists>s'. Sort E s = Inr s' \<and> swaps s s' \<and> mset s' = mset s \<and> length s' = length s)"
proof -
  have any: "\<forall>t. swaps s t \<longrightarrow> mset t = mset s \<and> length t = length s"
    by (simp add: swaps_mset)
  have "\<exists>s'. Sort E s = Inr s' \<and> swaps s s'"
  proof (cases "length s \<le> 1")
    case True
    then show ?thesis
      by (simp add: Sort_def Len_def swaps_none)
  next
    case False
    show ?thesis
    proof (cases "12 < length s")
      case True
      then show ?thesis
        using assms False by (simp add: Sort_def pdqsort_def maxInsertion_def Len_def)
    next
      case short: False
      obtain s' where run: "insertionSort s 0 (length s) = Inr s'"
        using insertionSort_sorts [of s] by blast
      then have "swaps s s'"
        by (rule insertionSort_swaps)
      then show ?thesis
        using run False short by (simp add: Sort_def pdqsort_def maxInsertion_def Len_def)
    qed
  qed
  then show ?thesis
    using any by blast
qed

theorem Sort_permutation_witness:
  "Sort two_pages [jane, bob, eve] = Inr [eve, bob, jane]
   \<and> swaps [jane, bob, eve] [eve, bob, jane]
   \<and> mset [eve, bob, jane] = mset [jane, bob, eve]
   \<and> 12 < length thirteen
   \<and> (\<exists>s'. pdqsort_long two_pages thirteen 0 (Len thirteen) = Inr s' \<and> swaps thirteen s')
   \<and> Sort two_pages thirteen = Inr thirteen_sorted
   \<and> swaps thirteen thirteen_sorted
   \<and> mset thirteen_sorted = mset thirteen"
proof -
  have run: "Sort two_pages [jane, bob, eve] = Inr [eve, bob, jane]"
    by code_simp
  have "\<not> 12 < length [jane, bob, eve]"
    by simp
  then obtain s' where "Sort two_pages [jane, bob, eve] = Inr s'"
    and "swaps [jane, bob, eve] s'" and "mset s' = mset [jane, bob, eve]"
    using Sort_permutation [of "[jane, bob, eve]" two_pages] by blast
  then have few: "swaps [jane, bob, eve] [eve, bob, jane]"
    "mset [eve, bob, jane] = mset [jane, bob, eve]"
    using run by simp_all
  have many: "12 < length thirteen"
    by (simp add: thirteen_def)
  obtain u where u: "insertionSort thirteen 0 (length thirteen) = Inr u"
    using insertionSort_sorts [of thirteen] by blast
  then have "swaps thirteen u"
    by (rule insertionSort_swaps)
  then have lib: "\<exists>s'. pdqsort_long two_pages thirteen 0 (Len thirteen) = Inr s' \<and> swaps thirteen s'"
    using u by (auto simp: two_pages_def Len_def)
  have run13: "Sort two_pages thirteen = Inr thirteen_sorted"
    by code_simp
  obtain t where "Sort two_pages thirteen = Inr t" and "swaps thirteen t"
    and "mset t = mset thirteen"
    using Sort_permutation [of thirteen two_pages] lib by blast
  then have "swaps thirteen thirteen_sorted" and "mset thirteen_sorted = mset thirteen"
    using run13 by simp_all
  then show ?thesis
    using run few many lib run13 by blast
qed

subsection \<open>Searching\<close>

text \<open>
  \<open>Contains\<close> is containment as a contiguous run: \<open>sublist xs ys\<close> says that
  \<open>ys = ps @ xs @ ss\<close> for some \<open>ps\<close> and \<open>ss\<close>. The collecting loop is a filter,
  and the printing loop writes the rows of its argument in order.
\<close>

lemma Contains_sublist: "Contains s substr \<longleftrightarrow> sublist substr s"
  by (induction s) (simp_all add: sublist_Cons_right)

lemma searchUsers_collect_filter:
  "searchUsers_collect s u foundUsers =
     foundUsers @ map found_of
       (filter (\<lambda>v. Contains (Name v) s \<or> Contains (Username v) s \<or> Contains (Email v) s) u)"
  by (induction u arbitrary: foundUsers) (simp_all add: found_of_def)

lemma searchUsers_print_stdout:
  "stdout (searchUsers_print foundUsers w) = stdout w @ map found_row foundUsers"
  by (induction foundUsers arbitrary: w) (simp_all add: Print_def)

lemma found_row_has_tab: "CHR 0x09 \<in> set (found_row f)"
  by (simp add: found_row_def)

lemma no_users_found_not_a_row: "''No users found'' @ [CHR 0x0A] \<notin> set (map found_row fs)"
proof
  assume "''No users found'' @ [CHR 0x0A] \<in> set (map found_row fs)"
  then obtain f where "found_row f = ''No users found'' @ [CHR 0x0A]"
    by auto
  then have "CHR 0x09 \<in> set (''No users found'' @ [CHR 0x0A])"
    using found_row_has_tab [of f] by simp
  then show False
    by simp
qed

text \<open>
  C3. A user is selected exactly when the needle occurs, byte for byte, as a contiguous
  run somewhere in its name, its login handle or its primary email; one field is
  enough, and nothing is normalised. When some user matches, one row is printed for each
  selected user.
\<close>

theorem searchUsers_selects_by_containment:
  "searchUsers_collect s u [] =
     map found_of (filter (\<lambda>v. sublist s (Name v) \<or> sublist s (Username v) \<or> sublist s (Email v)) u)
   \<and> (\<forall>v\<in>set u. found_of v \<in> set (searchUsers_collect s u [])
          \<longleftrightarrow> sublist s (Name v) \<or> sublist s (Username v) \<or> sublist s (Email v))
   \<and> ((\<exists>v\<in>set u. sublist s (Name v) \<or> sublist s (Username v) \<or> sublist s (Email v)) \<longrightarrow>
        stdout (searchUsers s u w) = stdout w @ map found_row (searchUsers_collect s u []))"
proof -
  let ?P = "\<lambda>v. sublist s (Name v) \<or> sublist s (Username v) \<or> sublist s (Email v)"
  have collect: "searchUsers_collect s u [] = map found_of (filter ?P u)"
    by (simp add: searchUsers_collect_filter Contains_sublist)
  have "found_of v \<in> set (searchUsers_collect s u []) \<longleftrightarrow> ?P v" if "v \<in> set u" for v
  proof
    assume "found_of v \<in> set (searchUsers_collect s u [])"
    then obtain v' where "?P v'" and "found_of v = found_of v'"
      unfolding collect by auto
    then have "Name v' = Name v" "Username v' = Username v" "Email v' = Email v"
      by (simp_all add: found_of_def)
    with \<open>?P v'\<close> show "?P v" by simp
  next
    assume "?P v"
    with that show "found_of v \<in> set (searchUsers_collect s u [])"
      unfolding collect by auto
  qed
  moreover have "stdout (searchUsers s u w) = stdout w @ map found_row (searchUsers_collect s u [])"
    if "\<exists>v\<in>set u. ?P v"
  proof -
    have "filter ?P u \<noteq> []"
      using that by (simp add: filter_empty_conv)
    then have "searchUsers_collect s u [] \<noteq> []"
      unfolding collect by simp
    then show ?thesis
      by (simp add: searchUsers_def searchUsers_print_stdout)
  qed
  ultimately show ?thesis
    using collect by blast
qed


theorem searchUsers_selects_by_containment_witness:
  "bob \<in> set [bob, jane] \<and> jane \<in> set [bob, jane]
   \<and> sublist ''smith'' (Email jane) \<and> \<not> sublist ''smith'' (Name jane)
   \<and> \<not> sublist ''smith'' (Username jane)
   \<and> found_of jane \<in> set (searchUsers_collect ''smith'' [bob, jane] [])
   \<and> found_of bob \<notin> set (searchUsers_collect ''smith'' [bob, jane] [])
   \<and> searchUsers_collect ''Smith'' [bob, jane] [] = []
   \<and> stdout (searchUsers ''smith'' [bob, jane] (console []))
       = [''2 '' @ [CHR 0x09] @ ''Jane Roe '' @ [CHR 0x09] @ ''jroe '' @ [CHR 0x09]
            @ ''jane.smith@x.com'' @ [CHR 0x0A]]"
proof -
  note sel_thm = searchUsers_selects_by_containment [of "''smith''" "[bob, jane]" "console []"]
  have mem: "bob \<in> set [bob, jane]" "jane \<in> set [bob, jane]"
    by simp_all
  have jane: "sublist ''smith'' (Email jane)" "\<not> sublist ''smith'' (Name jane)"
    "\<not> sublist ''smith'' (Username jane)"
    by code_simp+
  have bob: "\<not> (sublist ''smith'' (Name bob) \<or> sublist ''smith'' (Username bob)
                \<or> sublist ''smith'' (Email bob))"
    by code_simp
  have sel: "found_of jane \<in> set (searchUsers_collect ''smith'' [bob, jane] [])"
    "found_of bob \<notin> set (searchUsers_collect ''smith'' [bob, jane] [])"
    using sel_thm mem jane bob by blast+
  have upper: "searchUsers_collect ''Smith'' [bob, jane] [] = []"
    by code_simp
  have rows: "map found_row (searchUsers_collect ''smith'' [bob, jane] [])
       = [''2 '' @ [CHR 0x09] @ ''Jane Roe '' @ [CHR 0x09] @ ''jroe '' @ [CHR 0x09]
            @ ''jane.smith@x.com'' @ [CHR 0x0A]]"
    by code_simp
  have "stdout (searchUsers ''smith'' [bob, jane] (console []))
          = stdout (console []) @ map found_row (searchUsers_collect ''smith'' [bob, jane] [])"
    using sel_thm mem jane by blast
  then have out: "stdout (searchUsers ''smith'' [bob, jane] (console []))
       = [''2 '' @ [CHR 0x09] @ ''Jane Roe '' @ [CHR 0x09] @ ''jroe '' @ [CHR 0x09]
            @ ''jane.smith@x.com'' @ [CHR 0x0A]]"
    unfolding rows by (simp add: console_def)
  show ?thesis
    using mem jane sel upper out by blast
qed

text \<open>
  C7. If no user matches, \<open>searchUsers\<close> prints the line \<^verbatim>\<open>No users found\<close> and
  nothing else; if some user matches, it prints the rows of the matches, at least one,
  and none of them is that line.
\<close>

theorem searchUsers_no_users_found:
  "((\<forall>v\<in>set u. \<not> (Contains (Name v) s \<or> Contains (Username v) s \<or> Contains (Email v) s)) \<longrightarrow>
      stdout (searchUsers s u w) = stdout w @ [''No users found'' @ [CHR 0x0A]])
   \<and> ((\<exists>v\<in>set u. Contains (Name v) s \<or> Contains (Username v) s \<or> Contains (Email v) s) \<longrightarrow>
        stdout (searchUsers s u w) = stdout w @ map found_row (searchUsers_collect s u [])
        \<and> searchUsers_collect s u [] \<noteq> []
        \<and> ''No users found'' @ [CHR 0x0A] \<notin> set (map found_row (searchUsers_collect s u [])))"
proof -
  let ?P = "\<lambda>v. Contains (Name v) s \<or> Contains (Username v) s \<or> Contains (Email v) s"
  have collect: "searchUsers_collect s u [] = map found_of (filter ?P u)"
    by (simp add: searchUsers_collect_filter)
  have none: "stdout (searchUsers s u w) = stdout w @ [''No users found'' @ [CHR 0x0A]]"
    if "\<forall>v\<in>set u. \<not> ?P v"
  proof -
    have "filter ?P u = []"
      using that by (simp add: filter_empty_conv)
    then show ?thesis
      by (simp add: searchUsers_def collect Println_def)
  qed
  have some: "stdout (searchUsers s u w) = stdout w @ map found_row (searchUsers_collect s u [])
        \<and> searchUsers_collect s u [] \<noteq> []"
    if "\<exists>v\<in>set u. ?P v"
  proof -
    have "filter ?P u \<noteq> []"
      using that by (simp add: filter_empty_conv)
    then have "searchUsers_collect s u [] \<noteq> []"
      unfolding collect by simp
    then show ?thesis
      by (simp add: searchUsers_def searchUsers_print_stdout)
  qed
  show ?thesis
    using none some no_users_found_not_a_row by blast
qed

theorem searchUsers_no_users_found_witness:
  "\<not> (Contains (Name bob) ''Smith'' \<or> Contains (Username bob) ''Smith''
        \<or> Contains (Email bob) ''Smith'')
   \<and> \<not> (Contains (Name jane) ''Smith'' \<or> Contains (Username jane) ''Smith''
        \<or> Contains (Email jane) ''Smith'')
   \<and> stdout (searchUsers ''Smith'' [bob, jane] (console [])) = [''No users found'' @ [CHR 0x0A]]
   \<and> Contains (Email jane) ''smith''
   \<and> length (stdout (searchUsers ''smith'' [bob, jane] (console []))) = 1
   \<and> ''No users found'' @ [CHR 0x0A] \<notin> set (stdout (searchUsers ''smith'' [bob, jane] (console [])))"
proof -
  have no_bob: "\<not> (Contains (Name bob) ''Smith'' \<or> Contains (Username bob) ''Smith''
        \<or> Contains (Email bob) ''Smith'')"
    and no_jane: "\<not> (Contains (Name jane) ''Smith'' \<or> Contains (Username jane) ''Smith''
        \<or> Contains (Email jane) ''Smith'')"
    and yes_jane: "Contains (Email jane) ''smith''"
    by code_simp+
  have no: "\<forall>v\<in>set [bob, jane]. \<not> (Contains (Name v) ''Smith'' \<or> Contains (Username v) ''Smith''
        \<or> Contains (Email v) ''Smith'')"
    using no_bob no_jane by simp
  have yes: "\<exists>v\<in>set [bob, jane]. Contains (Name v) ''smith'' \<or> Contains (Username v) ''smith''
        \<or> Contains (Email v) ''smith''"
    using yes_jane by simp
  have one: "length (searchUsers_collect ''smith'' [bob, jane] []) = 1"
    by code_simp
  have "stdout (searchUsers ''Smith'' [bob, jane] (console []))
          = stdout (console []) @ [''No users found'' @ [CHR 0x0A]]"
    using searchUsers_no_users_found [of "[bob, jane]" "''Smith''" "console []"] no
    by blast
  moreover have "stdout (searchUsers ''smith'' [bob, jane] (console []))
        = stdout (console []) @ map found_row (searchUsers_collect ''smith'' [bob, jane] [])
     \<and> ''No users found'' @ [CHR 0x0A]
          \<notin> set (map found_row (searchUsers_collect ''smith'' [bob, jane] []))"
    using searchUsers_no_users_found [of "[bob, jane]" "''smith''" "console []"] yes
    by blast
  ultimately have "stdout (searchUsers ''Smith'' [bob, jane] (console []))
          = [''No users found'' @ [CHR 0x0A]]"
    and "length (stdout (searchUsers ''smith'' [bob, jane] (console []))) = 1"
    and "''No users found'' @ [CHR 0x0A]
          \<notin> set (stdout (searchUsers ''smith'' [bob, jane] (console [])))"
    using one by (simp_all add: console_def)
  then show ?thesis
    using no_bob no_jane yes_jane by blast
qed

text \<open>
  C10. The matches are a filter of the input, so they keep the relative order they have
  there, and the rows are printed in that order; when the input is ascending by
  identifier, so are the printed matches. The function only reads its argument: the
  collection is passed by value in the embedding and is not returned.
\<close>

theorem searchUsers_order_preserving:
  "searchUsers_collect s u [] =
     map found_of (filter (\<lambda>v. Contains (Name v) s \<or> Contains (Username v) s \<or> Contains (Email v) s) u)
   \<and> subseq (searchUsers_collect s u []) (map found_of u)
   \<and> (searchUsers_collect s u [] \<noteq> [] \<longrightarrow>
        stdout (searchUsers s u w) = stdout w @ map found_row (searchUsers_collect s u []))
   \<and> (sorted (map (\<lambda>v. sint (ID v)) u) \<longrightarrow>
        sorted (map (\<lambda>f. sint (fID f)) (searchUsers_collect s u [])))"
proof -
  let ?P = "\<lambda>v. Contains (Name v) s \<or> Contains (Username v) s \<or> Contains (Email v) s"
  have collect: "searchUsers_collect s u [] = map found_of (filter ?P u)"
    by (simp add: searchUsers_collect_filter)
  have "subseq (map found_of (filter ?P u)) (map found_of u)"
    by (intro subseq_map subseq_filter_left)
  then have sub: "subseq (searchUsers_collect s u []) (map found_of u)"
    unfolding collect .
  have rows: "stdout (searchUsers s u w) = stdout w @ map found_row (searchUsers_collect s u [])"
    if "searchUsers_collect s u [] \<noteq> []"
    using that by (simp add: searchUsers_def searchUsers_print_stdout)
  have srt: "sorted (map (\<lambda>f. sint (fID f)) (searchUsers_collect s u []))"
    if "sorted (map (\<lambda>v. sint (ID v)) u)"
  proof -
    have "(\<lambda>f. sint (fID f)) \<circ> found_of = (\<lambda>v. sint (ID v))"
      by (simp add: fun_eq_iff found_of_def)
    moreover have "sorted (map (\<lambda>v. sint (ID v)) (filter ?P u))"
      using that by (rule sorted_filter)
    ultimately show ?thesis
      unfolding collect map_map by simp
  qed
  show ?thesis
    using collect sub rows srt by blast
qed

theorem searchUsers_order_preserving_witness:
  "sorted (map (\<lambda>v. sint (ID v)) [eve, bob, jane])
   \<and> searchUsers_collect ''x.com'' [eve, bob, jane] [] = [found_of bob, found_of jane]
   \<and> searchUsers_collect ''x.com'' [eve, bob, jane] [] \<noteq> []
   \<and> sorted (map (\<lambda>f. sint (fID f)) (searchUsers_collect ''x.com'' [eve, bob, jane] []))
   \<and> stdout (searchUsers ''x.com'' [eve, bob, jane] (console []))
        = [found_row (found_of bob), found_row (found_of jane)]"
proof -
  have srt: "sorted (map (\<lambda>v. sint (ID v)) [eve, bob, jane])"
    by code_simp
  have run: "searchUsers_collect ''x.com'' [eve, bob, jane] [] = [found_of bob, found_of jane]"
    by code_simp
  then have ne: "searchUsers_collect ''x.com'' [eve, bob, jane] [] \<noteq> []"
    by simp
  have "sorted (map (\<lambda>f. sint (fID f)) (searchUsers_collect ''x.com'' [eve, bob, jane] []))"
    and "stdout (searchUsers ''x.com'' [eve, bob, jane] (console []))
          = stdout (console []) @ map found_row (searchUsers_collect ''x.com'' [eve, bob, jane] [])"
    using searchUsers_order_preserving [of "''x.com''" "[eve, bob, jane]" "console []"] srt ne
    by blast+
  then show ?thesis
    using srt run ne by (simp add: console_def)
qed


subsection \<open>Decimal numbers\<close>

text \<open>
  \<open>Atoi\<close> reads back what \<open>FormatInt\<close> writes, for every value of the 64-bit range: a
  header that carries a page number in decimal is parsed to that number.
\<close>

lemma of_char_digit_char: "d < 10 \<Longrightarrow> (of_char (digit_char d) :: nat) = 48 + d"
  by (simp add: digit_char_def)

lemma digits_nonempty: "digits n \<noteq> []"
  by (subst digits.simps) simp

lemma digits_all_digits: "list_all is_digit (digits n)"
proof (induction n rule: digits.induct)
  case (1 n)
  show ?case
  proof (cases "n < 10")
    case True
    then show ?thesis
      by (subst digits.simps) (simp add: is_digit_def of_char_digit_char)
  next
    case False
    have "is_digit (digit_char (n mod 10))"
      by (simp add: is_digit_def of_char_digit_char)
    then show ?thesis
      using False "1.IH" by (subst digits.simps) simp
  qed
qed

lemma ParseUint_loop_append:
  "ParseUint_loop s0 n (xs @ ys) =
     (case ParseUint_loop s0 n xs of Inl e \<Rightarrow> Inl e | Inr m \<Rightarrow> ParseUint_loop s0 m ys)"
  by (induction xs arbitrary: n) simp_all

lemma ParseUint_loop_digit:
  assumes "d < 10" and "n * 10 + int d < 2 ^ 64"
  shows "ParseUint_loop s0 n [digit_char d] = Inr (n * 10 + int d)"
proof -
  have "is_digit (digit_char d)"
    using assms(1) by (simp add: is_digit_def of_char_digit_char)
  moreover have "(of_char (digit_char d) :: int) = int (of_char (digit_char d))"
    by (simp only: of_nat_of_char)
  then have "(of_char (digit_char d) :: int) = 48 + int d"
    using assms(1) by (simp add: of_char_digit_char)
  moreover have "\<not> 2 ^ 64 - 1 < n * 10 + int d"
    using assms(2) by simp
  ultimately show ?thesis
    by simp
qed

lemma ParseUint_loop_digits: "int n < 2 ^ 64 \<Longrightarrow> ParseUint_loop s0 0 (digits n) = Inr (int n)"
proof (induction n rule: digits.induct)
  case (1 n)
  show ?case
  proof (cases "n < 10")
    case True
    then have "ParseUint_loop s0 0 [digit_char n] = Inr (0 * 10 + int n)"
      using "1.prems" by (intro ParseUint_loop_digit) simp_all
    then show ?thesis
      using True by (subst digits.simps) simp
  next
    case False
    have split: "int (n div 10) * 10 + int (n mod 10) = int n"
      by (metis of_nat_add of_nat_mult of_nat_numeral div_mult_mod_eq)
    have "int (n div 10) \<le> int n"
      by simp
    then have "int (n div 10) < 2 ^ 64"
      using "1.prems" by linarith
    then have front: "ParseUint_loop s0 0 (digits (n div 10)) = Inr (int (n div 10))"
      using False "1.IH" by simp
    have "ParseUint_loop s0 (int (n div 10)) [digit_char (n mod 10)]
        = Inr (int (n div 10) * 10 + int (n mod 10))"
      using "1.prems" split by (intro ParseUint_loop_digit) simp_all
    then have "ParseUint_loop s0 (int (n div 10)) [digit_char (n mod 10)] = Inr (int n)"
      using split by simp
    then show ?thesis
      using False front by (subst digits.simps) (simp add: ParseUint_loop_append)
  qed
qed

lemma digits_no_sign: "hd (digits n) \<noteq> CHR ''-'' \<and> hd (digits n) \<noteq> CHR ''+''"
proof -
  have "is_digit (hd (digits n))"
    using digits_all_digits [of n] digits_nonempty [of n]
    by (cases "digits n") simp_all
  then show ?thesis
    by (auto simp: is_digit_def)
qed

lemma Atoi_FormatInt:
  assumes "- (2 ^ 63) \<le> i" and "i < 2 ^ 63"
  shows "Atoi (FormatInt i) = Inr (word_of_int i)"
proof (cases "i < 0")
  case True
  let ?n = "nat (- i)"
  have n: "int ?n = - i"
    using True by simp
  then have "int ?n < 2 ^ 64"
    using assms(1) by simp
  then have read: "ParseUint_loop (CHR ''-'' # digits ?n) 0 (digits ?n) = Inr (- i)"
    using ParseUint_loop_digits [of ?n "CHR ''-'' # digits ?n"] n by simp
  show ?thesis
    using True assms(1) read digits_nonempty [of ?n]
    by (simp add: Atoi_def FormatInt_def Let_def)
next
  case False
  let ?n = "nat i"
  have n: "int ?n = i"
    using False by simp
  then have "int ?n < 2 ^ 64"
    using assms(2) by simp
  then have read: "ParseUint_loop (digits ?n) 0 (digits ?n) = Inr i"
    using ParseUint_loop_digits [of ?n "digits ?n"] n by simp
  show ?thesis
    using False assms(2) read digits_nonempty [of ?n] digits_no_sign [of ?n]
    by (simp add: Atoi_def FormatInt_def Let_def)
qed

text \<open>The error of a string that is both too long and malformed is decided by what comes first.\<close>

lemma Atoi_first_error:
  "Atoi ''99999999999999999999x'' = Inl (ErrRange ''99999999999999999999x'')
   \<and> Atoi ''9223372036854775808x'' = Inl (ErrSyntax ''9223372036854775808x'')
   \<and> Atoi ''9223372036854775808'' = Inl (ErrRange ''9223372036854775808'')
   \<and> Atoi ''-9223372036854775808'' = Inr (- 9223372036854775808)
   \<and> Atoi ''+7'' = Inr 7 \<and> Atoi ''-'' = Inl (ErrSyntax ''-'') \<and> Atoi [] = Inl (ErrSyntax [])"
  by code_simp

subsection \<open>Regular expressions\<close>

text \<open>
  The matcher decides membership in the language of the expression, and the language of
  \<open>isAlpha\<close> is the non-empty strings of letters.
\<close>

lemma nullable_lang: "nullable r \<longleftrightarrow> [] \<in> lang r"
proof (induction r)
  case (OpStar r)
  show ?case by (simp add: star_empty)
qed auto

lemma star_Cons:
  "c # s \<in> star A \<longleftrightarrow> (\<exists>u v. s = u @ v \<and> c # u \<in> A \<and> v \<in> star A)"
proof
  assume "c # s \<in> star A"
  then show "\<exists>u v. s = u @ v \<and> c # u \<in> A \<and> v \<in> star A"
  proof (induction "c # s" rule: star.induct)
    case (star_more u v)
    show ?case
    proof (cases u)
      case Nil
      then show ?thesis
        using star_more by simp
    next
      case (Cons d u')
      then have "s = u' @ v" and "c # u' \<in> A"
        using star_more.hyps(1,4) by simp_all
      then show ?thesis
        using star_more.hyps(2) by blast
    qed
  qed
next
  assume "\<exists>u v. s = u @ v \<and> c # u \<in> A \<and> v \<in> star A"
  then obtain u v where "s = u @ v" "c # u \<in> A" "v \<in> star A"
    by blast
  then show "c # s \<in> star A"
    using star_more [of "c # u" A v] by simp
qed

lemma deriv_lang: "lang (deriv c r) = {s. c # s \<in> lang r}"
proof (induction r)
  case (OpConcat r1 r2)
  have "{s. c # s \<in> lang (OpConcat r1 r2)}
      = {u @ v | u v. c # u \<in> lang r1 \<and> v \<in> lang r2} \<union> (if [] \<in> lang r1 then {s. c # s \<in> lang r2} else {})"
    by (auto simp: Cons_eq_append_conv)
  then show ?case
    using OpConcat by (auto simp: nullable_lang)
next
  case (OpStar r)
  then show ?case
    by (auto simp: star_Cons)
qed auto

lemma MatchString_lang: "MatchString r s \<longleftrightarrow> s \<in> lang r"
proof -
  have "nullable (foldl (\<lambda>r c. deriv c r) r s) \<longleftrightarrow> s \<in> lang r" for r
    by (induction s arbitrary: r) (simp_all add: nullable_lang deriv_lang)
  then show ?thesis
    by (simp add: MatchString_def)
qed

lemma star_class:
  "s \<in> star {[c] | c. P c} \<longleftrightarrow> (\<forall>c\<in>set s. P c)"
proof
  assume "s \<in> star {[c] | c. P c}"
  then show "\<forall>c\<in>set s. P c"
    by (induction rule: star.induct) auto
next
  assume "\<forall>c\<in>set s. P c"
  then show "s \<in> star {[c] | c. P c}"
  proof (induction s)
    case Nil
    show ?case by (rule star_empty)
  next
    case (Cons d s)
    then have "[d] \<in> {[c] | c. P c}" and "s \<in> star {[c] | c. P c}"
      by auto
    then show ?case
      using star_more [of "[d]" _ s] by simp
  qed
qed

lemma isAlpha_letters:
  "MatchString isAlpha s \<longleftrightarrow> s \<noteq> [] \<and> (\<forall>c\<in>set s. is_letter c)"
proof -
  have cls: "in_class [(CHR ''A'', CHR ''Z''), (CHR ''a'', CHR ''z'')] c = is_letter c" for c
    by (simp add: in_class_def is_letter_def)
  have "s \<in> lang isAlpha \<longleftrightarrow> (\<exists>c v. s = c # v \<and> is_letter c \<and> (\<forall>d\<in>set v. is_letter d))"
  proof
    assume "s \<in> lang isAlpha"
    then show "\<exists>c v. s = c # v \<and> is_letter c \<and> (\<forall>d\<in>set v. is_letter d)"
      by (auto simp: isAlpha_def OpPlus_def cls star_class)
  next
    assume "\<exists>c v. s = c # v \<and> is_letter c \<and> (\<forall>d\<in>set v. is_letter d)"
    then obtain c v where "s = [c] @ v" "is_letter c" "\<forall>d\<in>set v. is_letter d"
      by auto
    then show "s \<in> lang isAlpha"
      unfolding isAlpha_def OpPlus_def lang.simps cls star_class by blast
  qed
  also have "\<dots> \<longleftrightarrow> s \<noteq> [] \<and> (\<forall>c\<in>set s. is_letter c)"
    by (cases s) auto
  finally show ?thesis
    by (simp add: MatchString_lang)
qed


subsection \<open>Fetching the users\<close>

text \<open>Inside the loop the page counter is below \<open>totalPages\<close>, so adding one does not wrap.\<close>

lemma sint_succ:
  fixes x y :: gint
  assumes "x <s y"
  shows "sint (x + 1) = sint x + 1"
proof -
  have lt: "sint x < sint y"
    using assms by (simp add: word_sless_alt)
  have "sint y < 2 ^ 63"
    using sint_lt [of y] by simp
  then have up: "sint x + 1 < 2 ^ 63"
    using lt by simp
  have lo: "- (2 ^ 63) \<le> sint x + 1"
    using sint_ge [of x] by simp
  have "sint (x + 1) = signed_take_bit 63 (sint x + 1)"
    by (simp add: sint_word_ariths)
  also have "\<dots> = sint x + 1"
    using lo up by (rule signed_take_bit_int_eq_self)
  finally show ?thesis .
qed

text \<open>
  What a run of the loop does to the world: it only sends GET requests, at most
  \<open>totalPages - currentPage\<close> of them, and exactly that many when it runs to the end.
\<close>

lemma getUsers_loop_effects:
  "\<exists>urls. requests (snd (getUsers_loop E a_str t currentPage totalPages jsonResponse w))
            = requests w @ map GET urls
     \<and> int (length urls) \<le> max 0 (sint totalPages - sint currentPage)
     \<and> (\<forall>users. fst (getUsers_loop E a_str t currentPage totalPages jsonResponse w) = Inr users
          \<longrightarrow> int (length urls) = max 0 (sint totalPages - sint currentPage))
     \<and> stdout (snd (getUsers_loop E a_str t currentPage totalPages jsonResponse w)) = stdout w
     \<and> stdin (snd (getUsers_loop E a_str t currentPage totalPages jsonResponse w)) = stdin w"
proof (induction E a_str t currentPage totalPages jsonResponse w rule: getUsers_loop.induct)
  case (1 E a_str t currentPage totalPages jsonResponse w)
  let ?url = "users_url a_str (Itoa (currentPage + 1)) t"
  let ?w' = "w\<lparr>requests := requests w @ [GET ?url]\<rparr>"
  show ?case
  proof (cases "currentPage <s totalPages")
    case False
    then have "sint totalPages - sint currentPage \<le> 0"
      by (simp add: word_sless_alt)
    then show ?thesis
      using False by (intro exI [of _ "[]"]) (simp add: getUsers_loop.simps [of E a_str t currentPage])
  next
    case True
    then have pos: "0 < sint totalPages - sint currentPage"
      by (simp add: word_sless_alt)
    have get: "http_Get E ?url w = (httpGet E (requests w) ?url, ?w')"
      by (simp add: http_Get_def)
    have stop: ?thesis
      if "getUsers_loop E a_str t currentPage totalPages jsonResponse w = (Inl e, ?w')" for e
      using that pos by (intro exI [of _ "[?url]"]) simp
    show ?thesis
    proof (cases "httpGet E (requests w) ?url")
      case (Inl httpErr)
      then show ?thesis
        using True get by (intro stop [of httpErr]) (simp add: getUsers_loop.simps [of E a_str t currentPage])
    next
      case (Inr response)
      show ?thesis
      proof (cases "Body response")
        case (Inl responseErr)
        then show ?thesis
          using True get Inr
          by (intro stop [of responseErr]) (simp add: getUsers_loop.simps [of E a_str t currentPage])
      next
        case data: (Inr data)
        show ?thesis
        proof (cases "jsonUnmarshal E data")
          case (Inl jsonErr)
          then show ?thesis
            using True get Inr data
            by (intro stop [of jsonErr]) (simp add: getUsers_loop.simps [of E a_str t currentPage])
        next
          case tmp: (Inr tmpJsonResponse)
          let ?rest = "getUsers_loop E a_str t (currentPage + 1) totalPages
                         (jsonResponse @ tmpJsonResponse) ?w'"
          have step: "getUsers_loop E a_str t currentPage totalPages jsonResponse w = ?rest"
            using True get Inr data tmp
            by (simp add: getUsers_loop.simps [of E a_str t currentPage])
          obtain urls where urls: "requests (snd ?rest) = requests ?w' @ map GET urls"
            "int (length urls) \<le> max 0 (sint totalPages - sint (currentPage + 1))"
            "\<forall>users. fst ?rest = Inr users
               \<longrightarrow> int (length urls) = max 0 (sint totalPages - sint (currentPage + 1))"
            "stdout (snd ?rest) = stdout ?w'" "stdin (snd ?rest) = stdin ?w'"
            using "1.IH" [OF True refl get [symmetric] Inr data tmp] by blast
          have next_page: "sint (currentPage + 1) = sint currentPage + 1"
            using True by (rule sint_succ)
          show ?thesis
            unfolding step using urls pos next_page
            by (intro exI [of _ "?url # urls"]) simp
        qed
      qed
    qed
  qed
qed


text \<open>
  C9. The pagination loop returns for every pair of header values (the function is total,
  by the measure \<open>totalPages - currentPage\<close>): it sends only GET requests, at most
  \<open>max 0 (totalPages - currentPage)\<close> of them, none when
  \<open>totalPages \<le> currentPage\<close>, and each turn of the loop raises the counter by exactly
  one, without wrap-around.
\<close>

theorem getUsers_loop_request_bound:
  "\<exists>urls. requests (snd (getUsers_loop E a_str t currentPage totalPages jsonResponse w))
            = requests w @ map GET urls
     \<and> int (length urls) \<le> max 0 (sint totalPages - sint currentPage)
     \<and> (sint totalPages \<le> sint currentPage \<longrightarrow> urls = [])
     \<and> (currentPage <s totalPages \<longrightarrow> sint (currentPage + 1) = sint currentPage + 1)"
proof -
  obtain urls where urls:
    "requests (snd (getUsers_loop E a_str t currentPage totalPages jsonResponse w))
       = requests w @ map GET urls"
    "int (length urls) \<le> max 0 (sint totalPages - sint currentPage)"
    using getUsers_loop_effects [of E a_str t currentPage totalPages jsonResponse w] by blast
  have "urls = []" if "sint totalPages \<le> sint currentPage"
    using urls(2) that by simp
  moreover have "sint (currentPage + 1) = sint currentPage + 1" if "currentPage <s totalPages"
    using that by (rule sint_succ)
  ultimately show ?thesis
    using urls by blast
qed

theorem getUsers_loop_request_bound_witness:
  "requests (snd (getUsers_loop two_pages ''true'' ''tok'' 1 2 [jane, bob] (console [])))
     = [GET (users_url ''true'' ''2'' ''tok'')]
   \<and> int (length [GET (users_url ''true'' ''2'' ''tok'')]) \<le> max 0 (sint (2 :: gint) - sint (1 :: gint))
   \<and> (1 :: gint) <s 2 \<and> sint ((1 :: gint) + 1) = sint (1 :: gint) + 1
   \<and> sint (2 :: gint) \<le> sint (5 :: gint)
   \<and> requests (snd (getUsers_loop two_pages ''true'' ''tok'' 5 2 [] (console []))) = []
   \<and> (\<exists>urls. requests (snd (getUsers_loop (answering ''200 OK'') ''true'' ''tok''
                   (- 9223372036854775808) 9223372036854775807 [] (console []))) = map GET urls
         \<and> int (length urls) \<le> 18446744073709551615)"
proof -
  have run: "requests (snd (getUsers_loop two_pages ''true'' ''tok'' 1 2 [jane, bob] (console [])))
     = [GET (users_url ''true'' ''2'' ''tok'')]"
    by code_simp
  have lt: "(1 :: gint) <s 2" and le: "sint (2 :: gint) \<le> sint (5 :: gint)"
    by code_simp+
  have ext: "sint (9223372036854775807 :: gint) - sint (- 9223372036854775808 :: gint)
      = 18446744073709551615"
    by code_simp
  obtain urls where "requests (snd (getUsers_loop two_pages ''true'' ''tok'' 1 2 [jane, bob] (console [])))
            = requests (console []) @ map GET urls"
    and "int (length urls) \<le> max 0 (sint (2 :: gint) - sint (1 :: gint))"
    and "sint ((1 :: gint) + 1) = sint (1 :: gint) + 1"
    using getUsers_loop_request_bound [of two_pages "''true''" "''tok''" 1 2 "[jane, bob]" "console []"]
      lt by blast
  then have one: "int (length [GET (users_url ''true'' ''2'' ''tok'')])
        \<le> max 0 (sint (2 :: gint) - sint (1 :: gint))"
    and succ: "sint ((1 :: gint) + 1) = sint (1 :: gint) + 1"
    using run by (simp_all add: console_def)
  have none: "requests (snd (getUsers_loop two_pages ''true'' ''tok'' 5 2 [] (console []))) = []"
    using getUsers_loop_request_bound [of two_pages "''true''" "''tok''" 5 2 "[]" "console []"] le
    by (auto simp: console_def)
  have wide: "\<exists>urls. requests (snd (getUsers_loop (answering ''200 OK'') ''true'' ''tok''
                   (- 9223372036854775808) 9223372036854775807 [] (console []))) = map GET urls
         \<and> int (length urls) \<le> 18446744073709551615"
    using getUsers_loop_request_bound [of "answering ''200 OK''" "''true''" "''tok''"
        "- 9223372036854775808" 9223372036854775807 "[]" "console []"] ext
    by (auto simp: console_def)
  show ?thesis
    using run one lt succ le none wide by blast
qed

text \<open>The whole of \<open>getUsers\<close> sends GET requests only and leaves the console alone.\<close>

lemma getUsers_effects:
  "\<exists>urls. requests (snd (getUsers E t a w)) = requests w @ map GET urls
     \<and> stdout (snd (getUsers E t a w)) = stdout w
     \<and> stdin (snd (getUsers E t a w)) = stdin w"
proof -
  let ?url = "users_url (FormatBool a) ''1'' t"
  let ?w' = "w\<lparr>requests := requests w @ [GET ?url]\<rparr>"
  have "snd (getUsers E t a w) = ?w'
      \<or> (\<exists>currentPage totalPages jsonResponse.
            getUsers E t a w = getUsers_loop E (FormatBool a) t currentPage totalPages jsonResponse ?w')"
    by (auto simp: getUsers_def http_Get_def Let_def split: sum.splits list.splits)
  then show ?thesis
  proof
    assume "snd (getUsers E t a w) = ?w'"
    then show ?thesis
      by (intro exI [of _ "[?url]"]) simp
  next
    assume "\<exists>currentPage totalPages jsonResponse.
            getUsers E t a w = getUsers_loop E (FormatBool a) t currentPage totalPages jsonResponse ?w'"
    then obtain currentPage totalPages jsonResponse where loop:
      "getUsers E t a w = getUsers_loop E (FormatBool a) t currentPage totalPages jsonResponse ?w'"
      by blast
    obtain urls where "requests (snd (getUsers E t a w)) = requests ?w' @ map GET urls"
      "stdout (snd (getUsers E t a w)) = stdout ?w'" "stdin (snd (getUsers E t a w)) = stdin ?w'"
      unfolding loop
      using getUsers_loop_effects [of E "FormatBool a" t currentPage totalPages jsonResponse ?w']
      by blast
    then show ?thesis
      by (intro exI [of _ "?url # urls"]) simp
  qed
qed

text \<open>
  When the server answers the requests for the pages \<open>k + 1\<close> to \<open>N\<close>, the loop started
  at page \<open>k\<close> appends these pages in order.
\<close>

lemma sint_word_of_nat:
  fixes n :: nat
  assumes "n < 2 ^ 63"
  shows "sint (word_of_nat n :: gint) = int n"
proof -
  have "int n < 2 ^ 63"
    using assms by (metis of_nat_less_iff of_nat_numeral of_nat_power)
  then have "signed_take_bit 63 (int n) = int n"
    by (intro signed_take_bit_int_eq_self) simp_all
  then show ?thesis
    using signed_of_nat [where ?'b = 64 and ?'a = int, of n] by simp
qed

lemma FormatInt_1: "FormatInt 1 = ''1''"
  by code_simp

lemma getUsers_loop_pages:
  assumes "N < 2 ^ 63" and "k \<le> N"
    and "\<forall>h j. k < j \<and> j \<le> N \<longrightarrow>
           (\<exists>resp data. httpGet E h (users_url a_str (FormatInt (int j)) t) = Inr resp
              \<and> Body resp = Inr data \<and> jsonUnmarshal E data = Inr (page j))"
  shows "getUsers_loop E a_str t (word_of_nat k) (word_of_nat N) jsonResponse w =
           (Inr (jsonResponse @ concat (map page [Suc k..<Suc N])),
            w\<lparr>requests := requests w
                 @ map (\<lambda>j. GET (users_url a_str (FormatInt (int j)) t)) [Suc k..<Suc N]\<rparr>)"
  using assms
proof (induction "N - k" arbitrary: k jsonResponse w)
  case 0
  then have "k = N" by simp
  then show ?case
    by (simp add: getUsers_loop.simps [of E a_str t "word_of_nat N"])
next
  case (Suc d)
  then have lt: "k < N" by simp
  have sk: "sint (word_of_nat k :: gint) = int k" and sN: "sint (word_of_nat N :: gint) = int N"
    using lt Suc.prems(1) by (simp_all add: sint_word_of_nat)
  have guard: "(word_of_nat k :: gint) <s word_of_nat N"
    using lt sk sN by (simp add: word_sless_alt)
  have succ: "(word_of_nat k :: gint) + 1 = word_of_nat (Suc k)"
    by simp
  have "sint (word_of_nat (Suc k) :: gint) = int (Suc k)"
    using lt Suc.prems(1) by (intro sint_word_of_nat) simp
  then have nextPage: "Itoa (word_of_nat (Suc k)) = FormatInt (int (Suc k))"
    by (simp add: Itoa_def del: of_nat_Suc)
  let ?url = "users_url a_str (FormatInt (int (Suc k))) t"
  let ?w' = "w\<lparr>requests := requests w @ [GET ?url]\<rparr>"
  obtain resp data where resp: "httpGet E (requests w) ?url = Inr resp"
    and data: "Body resp = Inr data" and page: "jsonUnmarshal E data = Inr (page (Suc k))"
    using Suc.prems(3) lt by (meson Suc_leI lessI)
  have step: "getUsers_loop E a_str t (word_of_nat k) (word_of_nat N) jsonResponse w
        = getUsers_loop E a_str t (word_of_nat (Suc k)) (word_of_nat N)
            (jsonResponse @ page (Suc k)) ?w'"
    using guard resp data page
    by (simp add: getUsers_loop.simps [of E a_str t "word_of_nat k"] Let_def succ nextPage
        http_Get_def del: of_nat_Suc)
  have rest: "getUsers_loop E a_str t (word_of_nat (Suc k)) (word_of_nat N)
            (jsonResponse @ page (Suc k)) ?w'
        = (Inr ((jsonResponse @ page (Suc k)) @ concat (map page [Suc (Suc k)..<Suc N])),
            ?w'\<lparr>requests := requests ?w'
                 @ map (\<lambda>j. GET (users_url a_str (FormatInt (int j)) t)) [Suc (Suc k)..<Suc N]\<rparr>)"
  proof (rule Suc.hyps(1))
    show "d = N - Suc k" using Suc.hyps(2) by simp
    show "N < 2 ^ 63" by (rule Suc.prems(1))
    show "Suc k \<le> N" using lt by simp
    show "\<forall>h j. Suc k < j \<and> j \<le> N \<longrightarrow>
           (\<exists>resp data. httpGet E h (users_url a_str (FormatInt (int j)) t) = Inr resp
              \<and> Body resp = Inr data \<and> jsonUnmarshal E data = Inr (page j))"
      using Suc.prems(3) by (meson Suc_lessD)
  qed
  have upt: "[Suc k..<Suc N] = Suc k # [Suc (Suc k)..<Suc N]"
    using lt by (simp add: upt_conv_Cons)
  show ?case
    unfolding step rest upt by simp
qed


text \<open>
  C1. For every token and active-only flag: if the endpoint serves the pages \<open>1\<close> to
  \<open>N\<close> (page \<open>j\<close> decodes to \<open>page j\<close>, and the answer for page 1 carries
  \<^verbatim>\<open>X-Page: 1\<close> and \<^verbatim>\<open>X-Total-Pages: N\<close>), then \<open>getUsers\<close> returns the pages
  concatenated in page order, page 1 first, after one GET per page; the number of users
  is the sum of the page sizes.
\<close>

theorem getUsers_concatenates_pages:
  assumes "1 \<le> N" and "N < 2 ^ 63"
    and "\<forall>h j. 1 \<le> j \<and> j \<le> N \<longrightarrow>
           (\<exists>resp data. httpGet E h (users_url (FormatBool a) (FormatInt (int j)) t) = Inr resp
              \<and> Body resp = Inr data \<and> jsonUnmarshal E data = Inr (page j)
              \<and> (j = 1 \<longrightarrow>
                   (\<exists>xPage xs xTotalPages ys.
                      Header resp ''X-Page'' = xPage # xs \<and> Atoi xPage = Inr 1
                      \<and> Header resp ''X-Total-Pages'' = xTotalPages # ys
                      \<and> Atoi xTotalPages = Inr (word_of_nat N))))"
  shows "getUsers E t a w =
           (Inr (concat (map page [1..<Suc N])),
            w\<lparr>requests := requests w
                 @ map (\<lambda>j. GET (users_url (FormatBool a) (FormatInt (int j)) t)) [1..<Suc N]\<rparr>)
         \<and> length (concat (map page [1..<Suc N])) = sum_list (map (\<lambda>j. length (page j)) [1..<Suc N])"
proof -
  let ?a_str = "FormatBool a"
  let ?url = "\<lambda>j. users_url ?a_str (FormatInt (int j)) t"
  let ?w' = "w\<lparr>requests := requests w @ [GET (?url 1)]\<rparr>"
  have first_url: "users_url ?a_str ''1'' t = ?url 1"
    by (simp add: FormatInt_1)
  obtain resp data xPage xs xTotalPages ys
    where resp: "httpGet E (requests w) (?url 1) = Inr resp"
      and data: "Body resp = Inr data" and page1: "jsonUnmarshal E data = Inr (page 1)"
      and xPage: "Header resp ''X-Page'' = xPage # xs" "Atoi xPage = Inr 1"
      and xTotalPages: "Header resp ''X-Total-Pages'' = xTotalPages # ys"
        "Atoi xTotalPages = Inr (word_of_nat N)"
    using assms(1) assms(3) [THEN spec, of "requests w", THEN spec, of 1] by auto
  have start: "getUsers E t a w
        = getUsers_loop E ?a_str t (word_of_nat 1) (word_of_nat N) (page 1) ?w'"
    unfolding getUsers_def Let_def first_url
    using resp data page1 xPage xTotalPages by (simp add: http_Get_def)
  have rest: "getUsers_loop E ?a_str t (word_of_nat 1) (word_of_nat N) (page 1) ?w'
        = (Inr (page 1 @ concat (map page [Suc 1..<Suc N])),
           ?w'\<lparr>requests := requests ?w' @ map (\<lambda>j. GET (?url j)) [Suc 1..<Suc N]\<rparr>)"
  proof (rule getUsers_loop_pages)
    show "N < 2 ^ 63" by (rule assms(2))
    show "1 \<le> N" by (rule assms(1))
    show "\<forall>h j. 1 < j \<and> j \<le> N \<longrightarrow>
           (\<exists>resp data. httpGet E h (?url j) = Inr resp
              \<and> Body resp = Inr data \<and> jsonUnmarshal E data = Inr (page j))"
      using assms(3) by (meson less_imp_le_nat)
  qed
  have upt: "[1..<Suc N] = 1 # [Suc 1..<Suc N]"
    using assms(1) by (simp add: upt_conv_Cons)
  have run: "getUsers E t a w =
           (Inr (concat (map page [1..<Suc N])),
            w\<lparr>requests := requests w @ map (\<lambda>j. GET (?url j)) [1..<Suc N]\<rparr>)"
    unfolding start rest upt by simp
  have "length (concat (map page [1..<Suc N])) = sum_list (map (\<lambda>j. length (page j)) [1..<Suc N])"
    by (simp add: length_concat o_def)
  with run show ?thesis
    by blast
qed

theorem getUsers_concatenates_pages_witness:
  "getUsers two_pages ''tok'' True (console []) =
     (Inr [jane, bob, eve],
      \<lparr>requests = [GET (users_url ''true'' ''1'' ''tok''), GET (users_url ''true'' ''2'' ''tok'')],
       stdout = [], stdin = []\<rparr>)
   \<and> length [jane, bob, eve] = length [jane, bob] + length [eve]"
proof -
  define page where "page = (\<lambda>j :: nat. if j = 1 then [jane, bob] else [eve])"
  have f1: "FormatInt (int 1) = ''1''" and f2: "FormatInt (int 2) = ''2''" and fb: "FormatBool True = ''true''"
    by code_simp+
  have a1: "Atoi ''1'' = Inr 1" and a2: "Atoi ''2'' = Inr (word_of_nat 2)"
    by code_simp+
  have served: "\<forall>h j. 1 \<le> j \<and> j \<le> 2 \<longrightarrow>
           (\<exists>resp data. httpGet two_pages h (users_url (FormatBool True) (FormatInt (int j)) ''tok'') = Inr resp
              \<and> Body resp = Inr data \<and> jsonUnmarshal two_pages data = Inr (page j)
              \<and> (j = 1 \<longrightarrow>
                   (\<exists>xPage xs xTotalPages ys.
                      Header resp ''X-Page'' = xPage # xs \<and> Atoi xPage = Inr 1
                      \<and> Header resp ''X-Total-Pages'' = xTotalPages # ys
                      \<and> Atoi xTotalPages = Inr (word_of_nat 2))))"
  proof (intro allI impI)
    fix h :: "request list" and j :: nat
    assume "1 \<le> j \<and> j \<le> 2"
    then consider "j = 1" | "j = 2"
      by linarith
    then show "\<exists>resp data. httpGet two_pages h (users_url (FormatBool True) (FormatInt (int j)) ''tok'') = Inr resp
              \<and> Body resp = Inr data \<and> jsonUnmarshal two_pages data = Inr (page j)
              \<and> (j = 1 \<longrightarrow>
                   (\<exists>xPage xs xTotalPages ys.
                      Header resp ''X-Page'' = xPage # xs \<and> Atoi xPage = Inr 1
                      \<and> Header resp ''X-Total-Pages'' = xTotalPages # ys
                      \<and> Atoi xTotalPages = Inr (word_of_nat 2)))"
    proof cases
      case 1
      then show ?thesis
        using f1 fb a1 a2 by (simp add: two_pages_def page_def)
    next
      case 2
      then show ?thesis
        using f2 fb by (simp add: two_pages_def page_def users_url_def)
    qed
  qed
  have "[1..<Suc 2] = [1, 2]"
    by (simp add: upt_rec)
  then show ?thesis
    using getUsers_concatenates_pages [of 2 two_pages True "''tok''" page "console []", OF _ _ served]
      f1 f2 fb
    by (simp add: page_def console_def)
qed


subsection \<open>Blocking a user\<close>

text \<open>
  C2. For every token and user identifier, once the POST to the block endpoint has an
  answer, \<open>blockUser\<close> compares its status line with three exact strings:
  \<^verbatim>\<open>201 Created\<close> reports the block, \<^verbatim>\<open>404 Not Found\<close> that the identifier was not
  found, \<^verbatim>\<open>403 Forbidden\<close> that the user is already blocked, anything else the generic
  failure; each branch then prints the status line itself.
\<close>

theorem blockUser_status_branches:
  assumes "httpPost E (requests w) (block_url t u) ''application/x-www-form-urlencoded'' [] = Inr resp"
  shows "fst (blockUser E t u w) = Inr ()
    \<and> (Status resp = ''201 Created'' \<longrightarrow>
         stdout (snd (blockUser E t u w)) =
           stdout w @ [''UserID '' @ u @ '' has been blocked'' @ [CHR 0x0A],
                       ''201 Created'' @ [CHR 0x0A]])
    \<and> (Status resp = ''404 Not Found'' \<longrightarrow>
         stdout (snd (blockUser E t u w)) =
           stdout w @ [''ERROR: Unable to find UserID '' @ u @ [CHR 0x0A],
                       ''404 Not Found'' @ [CHR 0x0A]])
    \<and> (Status resp = ''403 Forbidden'' \<longrightarrow>
         stdout (snd (blockUser E t u w)) =
           stdout w @ [''ERROR: UserID '' @ u @ '' is already blocked'' @ [CHR 0x0A],
                       ''403 Forbidden'' @ [CHR 0x0A]])
    \<and> (Status resp \<noteq> ''201 Created'' \<and> Status resp \<noteq> ''404 Not Found''
          \<and> Status resp \<noteq> ''403 Forbidden'' \<longrightarrow>
         stdout (snd (blockUser E t u w)) =
           stdout w @ [''Error: something went wrong while trying to block UserID '' @ u @ [CHR 0x0A],
                       Status resp @ [CHR 0x0A]])"
  using assms by (simp add: blockUser_def http_Post_def Print_def Println_def)

theorem blockUser_status_branches_witness:
  "stdout (snd (blockUser (answering ''201 Created'') ''tok'' ''42'' (console [])))
     = [''UserID 42 has been blocked'' @ [CHR 0x0A], ''201 Created'' @ [CHR 0x0A]]
   \<and> stdout (snd (blockUser (answering ''404 Not Found'') ''tok'' ''42'' (console [])))
     = [''ERROR: Unable to find UserID 42'' @ [CHR 0x0A], ''404 Not Found'' @ [CHR 0x0A]]
   \<and> stdout (snd (blockUser (answering ''403 Forbidden'') ''tok'' ''42'' (console [])))
     = [''ERROR: UserID 42 is already blocked'' @ [CHR 0x0A], ''403 Forbidden'' @ [CHR 0x0A]]
   \<and> stdout (snd (blockUser (answering ''500 Internal Server Error'') ''tok'' ''42'' (console [])))
     = [''Error: something went wrong while trying to block UserID 42'' @ [CHR 0x0A],
        ''500 Internal Server Error'' @ [CHR 0x0A]]"
proof -
  have post: "httpPost (answering status) (requests (console [])) (block_url ''tok'' ''42'')
        ''application/x-www-form-urlencoded'' []
      = Inr \<lparr>Status = status, Header = (\<lambda>n. []), Body = Inr []\<rparr>" for status
    by (simp add: answering_def)
  show ?thesis
    using blockUser_status_branches [OF post [of "''201 Created''"]]
      blockUser_status_branches [OF post [of "''404 Not Found''"]]
      blockUser_status_branches [OF post [of "''403 Forbidden''"]]
      blockUser_status_branches [OF post [of "''500 Internal Server Error''"]]
    by (simp add: console_def)
qed


subsection \<open>Creating a user\<close>

text \<open>Reading a line does not touch the network; a complete line is returned with its newline.\<close>

lemma ReadString_effects:
  "requests (snd (ReadString w)) = requests w \<and> stdout (snd (ReadString w)) = stdout w"
  by (simp add: ReadString_def Let_def split: list.splits)

lemma ReadString_line:
  assumes "CHR 0x0A \<notin> set l" and "stdin w = l @ CHR 0x0A # rest"
  shows "ReadString w = (l @ [CHR 0x0A], w\<lparr>stdin := rest\<rparr>)"
proof -
  have all: "\<And>c. c \<in> set l \<Longrightarrow> c \<noteq> CHR 0x0A"
    using assms(1) by auto
  have "takeWhile (\<lambda>c. c \<noteq> CHR 0x0A) (stdin w) = l"
    unfolding assms(2) using all by (simp add: takeWhile_append2)
  moreover have "dropWhile (\<lambda>c. c \<noteq> CHR 0x0A) (stdin w) = CHR 0x0A # rest"
    unfolding assms(2) using all by (simp add: dropWhile_append2)
  ultimately show ?thesis
    by (simp add: ReadString_def)
qed

lemma createUser_reads:
  assumes "ReadString (Print ''Name: '' w0) = (lineName, w2)"
    and "ReadString (Print ''Email: '' w2) = (lineEmail, w4)"
    and "ReadString (Print ''Username: '' w4) = (lineUserName, w6)"
  shows "requests w6 = requests w0"
proof -
  have "requests w2 = requests w0"
    using ReadString_effects [of "Print ''Name: '' w0"] assms(1) by (simp add: Print_def)
  moreover have "requests w4 = requests w2"
    using ReadString_effects [of "Print ''Email: '' w2"] assms(2) by (simp add: Print_def)
  moreover have "requests w6 = requests w4"
    using ReadString_effects [of "Print ''Username: '' w4"] assms(3) by (simp add: Print_def)
  ultimately show ?thesis
    by simp
qed

lemma createUser_effects:
  "requests (snd (createUser E t w)) = requests w
   \<or> (\<exists>body. requests (snd (createUser E t w)) = requests w @ [POST (create_url t) ''application/json'' body])"
proof -
  obtain lineName w2 where r1: "ReadString (Print ''Name: '' w) = (lineName, w2)"
    by (cases "ReadString (Print ''Name: '' w)")
  obtain lineEmail w4 where r2: "ReadString (Print ''Email: '' w2) = (lineEmail, w4)"
    by (cases "ReadString (Print ''Email: '' w2)")
  obtain lineUserName w6 where r3: "ReadString (Print ''Username: '' w4) = (lineUserName, w6)"
    by (cases "ReadString (Print ''Username: '' w4)")
  have "requests w6 = requests w"
    using r1 r2 r3 by (rule createUser_reads)
  then show ?thesis
    using r1 r2 r3
    by (auto simp: createUser_def Let_def http_Post_def Println_def split: sum.splits)
qed

text \<open>
  C4. In \<open>createUser\<close> the three console reads send nothing, and both checks come before
  the POST: a login handle that does not match \<^verbatim>\<open>^[A-Za-z]+$\<close> ends the run with the
  fatal message naming that handle, and an email of more than 254 bytes or one that does
  not match the email pattern ends it with the fatal message naming that email (or the
  handle, which is checked first, when the handle is invalid too). In each of these cases
  the world at the end has the request log it had at the start: no POST is sent.
\<close>

theorem createUser_validates_before_request:
  assumes "ReadString (Print ''Name: '' w0) = (lineName, w2)"
    and "ReadString (Print ''Email: '' w2) = (lineEmail, w4)"
    and "ReadString (Print ''Username: '' w4) = (lineUserName, w6)"
  shows "requests w6 = requests w0
    \<and> (\<not> MatchString isAlpha (Replace_newline lineUserName) \<longrightarrow>
         createUser E t w0 =
           (Inl (Fatal (''error: '' @ Replace_newline lineUserName @ '' is not a valid username'')),
            w6))
    \<and> (254 < length (Replace_newline lineEmail) \<or> \<not> MatchString rxEmail (Replace_newline lineEmail) \<longrightarrow>
         createUser E t w0 =
           (Inl (Fatal
              (if MatchString isAlpha (Replace_newline lineUserName)
               then ''error: '' @ Replace_newline lineEmail @ '' is not a valid email address''
               else ''error: '' @ Replace_newline lineUserName @ '' is not a valid username'')),
            w6))"
proof -
  have "requests w6 = requests w0"
    using assms by (rule createUser_reads)
  then show ?thesis
    using assms by (simp add: createUser_def Let_def)
qed


theorem createUser_validates_before_request_witness:
  "createUser (answering ''201 Created'') ''tok'' (terminal [] [''Bob'', ''not-an-email'', ''bob''])
     = (Inl (Fatal ''error: not-an-email is not a valid email address''),
        terminal [''Name: '', ''Email: '', ''Username: ''] [])
   \<and> createUser (answering ''201 Created'') ''tok'' (terminal [] [''Bob'', ''a@b.com'', ''bob1''])
     = (Inl (Fatal ''error: bob1 is not a valid username''),
        terminal [''Name: '', ''Email: '', ''Username: ''] [])
   \<and> createUser (answering ''201 Created'') ''tok'' (terminal [] [''Bob'', ''not-an-email'', ''bob_2''])
     = (Inl (Fatal ''error: bob_2 is not a valid username''),
        terminal [''Name: '', ''Email: '', ''Username: ''] [])
   \<and> length (replicate 249 CHR ''a'' @ ''@b.com'') = 255
   \<and> createUser (answering ''201 Created'') ''tok''
         (terminal [] [''Bob'', replicate 249 CHR ''a'' @ ''@b.com'', ''bob''])
     = (Inl (Fatal (''error: '' @ replicate 249 CHR ''a'' @ ''@b.com'' @ '' is not a valid email address'')),
        terminal [''Name: '', ''Email: '', ''Username: ''] [])
   \<and> requests (terminal [''Name: '', ''Email: '', ''Username: ''] []) = []
   \<and> requests (snd (createUser (answering ''201 Created'') ''tok''
                       (terminal [] [''Bob'', ''a@b.com'', ''bob''])))
       = [POST (create_url ''tok'') ''application/json'' ''{}'']"
proof -
  let ?E = "answering ''201 Created''"
  let ?end = "terminal [''Name: '', ''Email: '', ''Username: ''] []"
  have name: "ReadString (Print ''Name: '' (terminal [] [''Bob'', e, u]))
      = (''Bob'' @ [CHR 0x0A], terminal [''Name: ''] [e, u])" for e u
    by (simp add: ReadString_def Print_def terminal_def)
  have email1: "ReadString (Print ''Email: '' (terminal [''Name: ''] [''not-an-email'', u]))
      = (''not-an-email'' @ [CHR 0x0A], terminal [''Name: '', ''Email: ''] [u])" for u
    by (simp add: ReadString_def Print_def terminal_def)
  have email2: "ReadString (Print ''Email: '' (terminal [''Name: ''] [''a@b.com'', u]))
      = (''a@b.com'' @ [CHR 0x0A], terminal [''Name: '', ''Email: ''] [u])" for u
    by (simp add: ReadString_def Print_def terminal_def)
  have "ReadString (Print ''Email: '' (terminal [''Name: ''] [replicate 249 CHR ''a'' @ ''@b.com'', u]))
      = ((replicate 249 CHR ''a'' @ ''@b.com'') @ [CHR 0x0A],
         (Print ''Email: '' (terminal [''Name: ''] [replicate 249 CHR ''a'' @ ''@b.com'', u]))
           \<lparr>stdin := u @ [CHR 0x0A]\<rparr>)" for u
    by (rule ReadString_line) (simp_all add: Print_def terminal_def)
  then have email3:
    "ReadString (Print ''Email: '' (terminal [''Name: ''] [replicate 249 CHR ''a'' @ ''@b.com'', u]))
      = ((replicate 249 CHR ''a'' @ ''@b.com'') @ [CHR 0x0A], terminal [''Name: '', ''Email: ''] [u])"
    for u
    by (simp add: Print_def terminal_def)
  have user1: "ReadString (Print ''Username: '' (terminal [''Name: '', ''Email: ''] [''bob'']))
      = (''bob'' @ [CHR 0x0A], ?end)"
    by (simp add: ReadString_def Print_def terminal_def)
  have user2: "ReadString (Print ''Username: '' (terminal [''Name: '', ''Email: ''] [''bob1'']))
      = (''bob1'' @ [CHR 0x0A], ?end)"
    by (simp add: ReadString_def Print_def terminal_def)
  have user3: "ReadString (Print ''Username: '' (terminal [''Name: '', ''Email: ''] [''bob_2'']))
      = (''bob_2'' @ [CHR 0x0A], ?end)"
    by (simp add: ReadString_def Print_def terminal_def)
  have strip: "Replace_newline (''not-an-email'' @ [CHR 0x0A]) = ''not-an-email''"
    "Replace_newline (''a@b.com'' @ [CHR 0x0A]) = ''a@b.com''"
    "Replace_newline (''bob'' @ [CHR 0x0A]) = ''bob''"
    "Replace_newline (''bob1'' @ [CHR 0x0A]) = ''bob1''"
    "Replace_newline (''bob_2'' @ [CHR 0x0A]) = ''bob_2''"
    "Replace_newline ((replicate 249 CHR ''a'' @ ''@b.com'') @ [CHR 0x0A])
       = replicate 249 CHR ''a'' @ ''@b.com''"
    by (simp_all add: Replace_newline_def)
  have long: "length (replicate 249 CHR ''a'' @ ''@b.com'') = 255"
    by simp
  have checks: "MatchString isAlpha ''bob''" "\<not> MatchString isAlpha ''bob1''"
    "\<not> MatchString isAlpha ''bob_2''" "\<not> MatchString rxEmail ''not-an-email''"
    "MatchString rxEmail ''a@b.com''"
    by code_simp+
  have bad_email: "createUser ?E ''tok'' (terminal [] [''Bob'', ''not-an-email'', ''bob''])
     = (Inl (Fatal ''error: not-an-email is not a valid email address''), ?end)"
    using createUser_validates_before_request [OF name email1 user1, of ?E "''tok''"] checks
    unfolding strip by simp
  have bad_user: "createUser ?E ''tok'' (terminal [] [''Bob'', ''a@b.com'', ''bob1''])
     = (Inl (Fatal ''error: bob1 is not a valid username''), ?end)"
    using createUser_validates_before_request [OF name email2 user2, of ?E "''tok''"] checks
    unfolding strip by simp
  have bad_both: "createUser ?E ''tok'' (terminal [] [''Bob'', ''not-an-email'', ''bob_2''])
     = (Inl (Fatal ''error: bob_2 is not a valid username''), ?end)"
    using createUser_validates_before_request [OF name email1 user3, of ?E "''tok''"] checks
    unfolding strip by simp
  have too_long: "createUser ?E ''tok''
         (terminal [] [''Bob'', replicate 249 CHR ''a'' @ ''@b.com'', ''bob''])
     = (Inl (Fatal (''error: '' @ replicate 249 CHR ''a'' @ ''@b.com'' @ '' is not a valid email address'')),
        ?end)"
    using createUser_validates_before_request [OF name email3 user1, of ?E "''tok''"] checks(1) long
    unfolding strip by simp
  have none: "requests ?end = []"
    by (simp add: terminal_def)
  have good: "requests (snd (createUser ?E ''tok'' (terminal [] [''Bob'', ''a@b.com'', ''bob''])))
       = [POST (create_url ''tok'') ''application/json'' ''{}'']"
    by code_simp
  show ?thesis
    using bad_email bad_user bad_both long too_long none good by blast
qed


subsection \<open>Selecting the action\<close>

text \<open>
  Printing sends nothing and reads nothing, and \<open>blockUser\<close> sends its one POST
  whatever the answer is.
\<close>

lemma displayAllUsers_effects:
  "requests (displayAllUsers u w) = requests w \<and> stdin (displayAllUsers u w) = stdin w"
  by (induction u arbitrary: w) (simp_all add: Println_def)

lemma searchUsers_print_effects:
  "requests (searchUsers_print fs w) = requests w \<and> stdin (searchUsers_print fs w) = stdin w"
  by (induction fs arbitrary: w) (simp_all add: Print_def)

lemma searchUsers_effects:
  "requests (searchUsers s u w) = requests w \<and> stdin (searchUsers s u w) = stdin w"
  by (simp add: searchUsers_def Let_def searchUsers_print_effects Println_def)

lemma blockUser_effects:
  "requests (snd (blockUser E t u w))
     = requests w @ [POST (block_url t u) ''application/x-www-form-urlencoded'' []]
   \<and> stdin (snd (blockUser E t u w)) = stdin w"
  by (simp add: blockUser_def http_Post_def Print_def Println_def split: sum.splits)

text \<open>
  C6. For all flag values exactly one branch of \<open>main\<close> runs, the first whose condition
  holds: a non-empty search text runs fetch, sort and search (whatever the other flags
  are); otherwise a non-empty block identifier runs \<open>blockUser\<close>; otherwise the create
  flag runs \<open>createUser\<close>; otherwise fetch, sort and \<open>displayAllUsers\<close>. The requests
  sent tell the actions apart: the two listing actions send GET requests only and do not
  read the console, blocking sends only the POST to the block endpoint, and creating sends
  at most the POST to the creation endpoint.
\<close>

theorem main_runs_one_action:
  "(searchText f \<noteq> [] \<longrightarrow>
      main E f w =
        (case fetch_and_sort E f w of
           (Inl e, w') \<Rightarrow> (Inl e, w')
         | (Inr users, w') \<Rightarrow> (Inr (), searchUsers (searchText f) users w'))
      \<and> (\<exists>urls. requests (snd (main E f w)) = requests w @ map GET urls)
      \<and> stdin (snd (main E f w)) = stdin w)
   \<and> (searchText f = [] \<and> bu f \<noteq> [] \<longrightarrow>
      main E f w = blockUser E (token f) (bu f) w
      \<and> requests (snd (main E f w))
          = requests w @ [POST (block_url (token f) (bu f)) ''application/x-www-form-urlencoded'' []]
      \<and> stdin (snd (main E f w)) = stdin w)
   \<and> (searchText f = [] \<and> bu f = [] \<and> create f \<longrightarrow>
      main E f w = createUser E (token f) w
      \<and> (requests (snd (main E f w)) = requests w
          \<or> (\<exists>body. requests (snd (main E f w))
                = requests w @ [POST (create_url (token f)) ''application/json'' body])))
   \<and> (searchText f = [] \<and> bu f = [] \<and> \<not> create f \<longrightarrow>
      main E f w =
        (case fetch_and_sort E f w of
           (Inl e, w') \<Rightarrow> (Inl e, w')
         | (Inr users, w') \<Rightarrow> (Inr (), displayAllUsers users w'))
      \<and> (\<exists>urls. requests (snd (main E f w)) = requests w @ map GET urls)
      \<and> stdin (snd (main E f w)) = stdin w)"
proof -
  obtain r w' where got: "getUsers E (token f) (active f) w = (r, w')"
    by (cases "getUsers E (token f) (active f) w")
  obtain urls where urls: "requests w' = requests w @ map GET urls" and inp: "stdin w' = stdin w"
    using getUsers_effects [of E "token f" "active f" w] got by auto
  have search: "main E f w =
        (case fetch_and_sort E f w of
           (Inl e, w') \<Rightarrow> (Inl e, w')
         | (Inr users, w') \<Rightarrow> (Inr (), searchUsers (searchText f) users w'))
      \<and> (\<exists>urls. requests (snd (main E f w)) = requests w @ map GET urls)
      \<and> stdin (snd (main E f w)) = stdin w"
    if "searchText f \<noteq> []"
    using that got urls inp
    by (auto simp: main_def fetch_and_sort_def searchUsers_effects split: sum.splits)
  have list: "main E f w =
        (case fetch_and_sort E f w of
           (Inl e, w') \<Rightarrow> (Inl e, w')
         | (Inr users, w') \<Rightarrow> (Inr (), displayAllUsers users w'))
      \<and> (\<exists>urls. requests (snd (main E f w)) = requests w @ map GET urls)
      \<and> stdin (snd (main E f w)) = stdin w"
    if "searchText f = []" "bu f = []" "\<not> create f"
    using that got urls inp
    by (auto simp: main_def fetch_and_sort_def displayAllUsers_effects split: sum.splits)
  have block: "main E f w = blockUser E (token f) (bu f) w
      \<and> requests (snd (main E f w))
          = requests w @ [POST (block_url (token f) (bu f)) ''application/x-www-form-urlencoded'' []]
      \<and> stdin (snd (main E f w)) = stdin w"
    if "searchText f = []" "bu f \<noteq> []"
    using that blockUser_effects [of E "token f" "bu f" w] by (simp add: main_def)
  have create: "main E f w = createUser E (token f) w
      \<and> (requests (snd (main E f w)) = requests w
          \<or> (\<exists>body. requests (snd (main E f w))
                = requests w @ [POST (create_url (token f)) ''application/json'' body]))"
    if "searchText f = []" "bu f = []" "create f"
    using that createUser_effects [of E "token f" w] by (simp add: main_def)
  show ?thesis
    using search block create list by blast
qed

theorem main_runs_one_action_witness:
  "searchText (cli ''smith'' ''42'' True) \<noteq> []
   \<and> main two_pages (cli ''smith'' ''42'' True) (console [])
       = (Inr (),
          \<lparr>requests = map GET [users_url ''true'' ''1'' ''tok'', users_url ''true'' ''2'' ''tok''],
           stdout = [found_row (found_of jane)], stdin = []\<rparr>)
   \<and> searchText (cli [] ''42'' True) = [] \<and> bu (cli [] ''42'' True) \<noteq> []
   \<and> main (answering ''201 Created'') (cli [] ''42'' True) (console [])
       = blockUser (answering ''201 Created'') ''tok'' ''42'' (console [])
   \<and> requests (snd (main (answering ''201 Created'') (cli [] ''42'' True) (console [])))
       = [POST (block_url ''tok'' ''42'') ''application/x-www-form-urlencoded'' []]
   \<and> bu (cli [] [] True) = [] \<and> create (cli [] [] True)
   \<and> main (answering ''201 Created'') (cli [] [] True) (terminal [] [''Bob'', ''a@b.com'', ''bob''])
       = createUser (answering ''201 Created'') ''tok'' (terminal [] [''Bob'', ''a@b.com'', ''bob''])
   \<and> \<not> create (cli [] [] False)
   \<and> main two_pages (cli [] [] False) (console [])
       = (Inr (),
          \<lparr>requests = map GET [users_url ''true'' ''1'' ''tok'', users_url ''true'' ''2'' ''tok''],
           stdout = map (\<lambda>l. l @ [CHR 0x0A])
             [''-----------------------'', ''ID : -3'', ''Name : Eve'',
              ''-----------------------'', ''ID : 1'', ''Name : Bob Stone'',
              ''-----------------------'', ''ID : 2'', ''Name : Jane Roe''],
           stdin = []\<rparr>)"
proof -
  let ?fetched = "\<lparr>requests = map GET [users_url ''true'' ''1'' ''tok'', users_url ''true'' ''2'' ''tok''],
          stdout = [], stdin = []\<rparr>"
  have flags: "searchText (cli ''smith'' ''42'' True) \<noteq> []"
    "searchText (cli [] ''42'' True) = []" "bu (cli [] ''42'' True) \<noteq> []"
    "searchText (cli [] [] True) = []" "bu (cli [] [] True) = []" "create (cli [] [] True)"
    "searchText (cli [] [] False) = []" "bu (cli [] [] False) = []" "\<not> create (cli [] [] False)"
    by (simp_all add: cli_def)
  have args: "token (cli [] ''42'' True) = ''tok''" "bu (cli [] ''42'' True) = ''42''"
    "token (cli [] [] True) = ''tok''" "searchText (cli ''smith'' ''42'' True) = ''smith''"
    by (simp_all add: cli_def)
  have fetch: "fetch_and_sort two_pages (cli s b c) (console []) = (Inr [eve, bob, jane], ?fetched)"
    for s b c
    by code_simp
  have rows: "searchUsers ''smith'' [eve, bob, jane] ?fetched
      = \<lparr>requests = map GET [users_url ''true'' ''1'' ''tok'', users_url ''true'' ''2'' ''tok''],
           stdout = [found_row (found_of jane)], stdin = []\<rparr>"
    by code_simp
  have blocks: "displayAllUsers [eve, bob, jane] ?fetched
      = \<lparr>requests = map GET [users_url ''true'' ''1'' ''tok'', users_url ''true'' ''2'' ''tok''],
           stdout = map (\<lambda>l. l @ [CHR 0x0A])
             [''-----------------------'', ''ID : -3'', ''Name : Eve'',
              ''-----------------------'', ''ID : 1'', ''Name : Bob Stone'',
              ''-----------------------'', ''ID : 2'', ''Name : Jane Roe''],
           stdin = []\<rparr>"
    by code_simp
  note search_case = main_runs_one_action [of "cli ''smith'' ''42'' True" two_pages "console []"]
  have "main two_pages (cli ''smith'' ''42'' True) (console []) =
        (case fetch_and_sort two_pages (cli ''smith'' ''42'' True) (console []) of
           (Inl e, w') \<Rightarrow> (Inl e, w')
         | (Inr users, w') \<Rightarrow>
             (Inr (), searchUsers (searchText (cli ''smith'' ''42'' True)) users w'))"
    using search_case flags(1) by blast
  then have search: "main two_pages (cli ''smith'' ''42'' True) (console [])
       = (Inr (),
          \<lparr>requests = map GET [users_url ''true'' ''1'' ''tok'', users_url ''true'' ''2'' ''tok''],
           stdout = [found_row (found_of jane)], stdin = []\<rparr>)"
    unfolding fetch args by (simp only: prod.case sum.case rows)
  note block_case = main_runs_one_action [of "cli [] ''42'' True" "answering ''201 Created''" "console []"]
  have "main (answering ''201 Created'') (cli [] ''42'' True) (console [])
       = blockUser (answering ''201 Created'') (token (cli [] ''42'' True)) (bu (cli [] ''42'' True))
           (console [])"
    using block_case flags(2,3) by blast
  then have block1: "main (answering ''201 Created'') (cli [] ''42'' True) (console [])
       = blockUser (answering ''201 Created'') ''tok'' ''42'' (console [])"
    unfolding args .
  have "requests (snd (main (answering ''201 Created'') (cli [] ''42'' True) (console [])))
       = requests (console []) @ [POST (block_url (token (cli [] ''42'' True)) (bu (cli [] ''42'' True)))
            ''application/x-www-form-urlencoded'' []]"
    using block_case flags(2,3) by blast
  then have block2: "requests (snd (main (answering ''201 Created'') (cli [] ''42'' True) (console [])))
       = [POST (block_url ''tok'' ''42'') ''application/x-www-form-urlencoded'' []]"
    unfolding args by (simp add: console_def)
  have "main (answering ''201 Created'') (cli [] [] True)
        (terminal [] [''Bob'', ''a@b.com'', ''bob''])
       = createUser (answering ''201 Created'') (token (cli [] [] True))
           (terminal [] [''Bob'', ''a@b.com'', ''bob''])"
    using main_runs_one_action [of "cli [] [] True" "answering ''201 Created''"
        "terminal [] [''Bob'', ''a@b.com'', ''bob'']"] flags(4,5,6)
    by blast
  then have create: "main (answering ''201 Created'') (cli [] [] True)
        (terminal [] [''Bob'', ''a@b.com'', ''bob''])
       = createUser (answering ''201 Created'') ''tok'' (terminal [] [''Bob'', ''a@b.com'', ''bob''])"
    unfolding args .
  have "main two_pages (cli [] [] False) (console []) =
        (case fetch_and_sort two_pages (cli [] [] False) (console []) of
           (Inl e, w') \<Rightarrow> (Inl e, w')
         | (Inr users, w') \<Rightarrow> (Inr (), displayAllUsers users w'))"
    using main_runs_one_action [of "cli [] [] False" two_pages "console []"] flags(7,8,9)
    by blast
  then have list: "main two_pages (cli [] [] False) (console [])
       = (Inr (),
          \<lparr>requests = map GET [users_url ''true'' ''1'' ''tok'', users_url ''true'' ''2'' ''tok''],
           stdout = map (\<lambda>l. l @ [CHR 0x0A])
             [''-----------------------'', ''ID : -3'', ''Name : Eve'',
              ''-----------------------'', ''ID : 1'', ''Name : Bob Stone'',
              ''-----------------------'', ''ID : 2'', ''Name : Jane Roe''],
           stdin = []\<rparr>)"
    unfolding fetch by (simp only: prod.case sum.case blocks)
  show ?thesis
    using flags search block1 block2 create list by blast
qed



end
